theory Spec2Isabelle
  imports Main "HOL-Library.Word" "HOL-Library.Multiset"
begin

section \<open>Data model of \<open>src/main.cpp\<close>\<close>

text \<open>
  The firmware targets the ESP32 (Arduino core): \<open>unsigned long\<close> and
  \<open>unsigned int\<close> are 32-bit unsigned, \<open>int\<close> is 32-bit two's complement (a word read
  with \<open>sint\<close>).
  Unsigned arithmetic wraps; comparison of words is unsigned.
\<close>

type_synonym uint32 = "32 word"
type_synonym int32 = "32 word"

text \<open>\<open>struct RFSignal\<close> (the field \<open>value\<close> is called \<open>val\<close> here).\<close>

record RFSignal =
  name :: string
  val :: uint32
  bitLength :: uint32
  protocol :: uint32
  timestamp :: uint32
  isFavorite :: bool

text \<open>The typed values of the \<open>Preferences\<close> key-value store, one constructor per put/get pair used.\<close>

datatype pval = PInt int32 | PUInt uint32 | PULong uint32 | PString string | PBool bool

type_synonym prefs = "string \<rightharpoonup> pval"

text \<open>The global variables of the sketch, with the \<open>Preferences\<close> namespace as one more component.\<close>

record state =
  sniffingEnabled :: bool
  buzzerEnabled :: bool
  ledEnabled :: bool
  lastSignalTime :: uint32
  signalCount :: int32
  storedSignals :: "RFSignal list"
  preferences :: prefs

definition MAX_SIGNALS :: nat where
  "MAX_SIGNALS = 1000"

definition AUTO_CLEANUP_THRESHOLD :: nat where
  "AUTO_CLEANUP_THRESHOLD = 950"

text \<open>
  \<open>int signalsToRemove = MAX_SIGNALS * 0.2\<close>: the double product of 1000 and 0.2 rounds to
  200.0 and is truncated to 200. The model computes the same number in exact arithmetic.
\<close>

definition signalsToRemove :: nat where
  "signalsToRemove = MAX_SIGNALS * 2 div 10"

text \<open>The deduplication key compared by \<open>isDuplicate\<close>.\<close>

definition triple :: "RFSignal \<Rightarrow> uint32 \<times> uint32 \<times> uint32" where
  "triple s = (val s, bitLength s, protocol s)"

section \<open>Arduino \<open>String\<close> of a number and the keys of the store\<close>

definition digit_char :: "nat \<Rightarrow> char" where
  "digit_char d = char_of (48 + d)"

fun decimal :: "nat \<Rightarrow> string" where
  "decimal n = (if n < 10 then [digit_char n] else decimal (n div 10) @ [digit_char (n mod 10)])"

declare decimal.simps [simp del]

text \<open>\<open>String(int)\<close>: decimal digits, with a minus sign for a negative number.\<close>

definition String_of_int :: "int \<Rightarrow> string" where
  "String_of_int i = (if i < 0 then CHR ''-'' # decimal (nat (- i)) else decimal (nat i))"

text \<open>\<open>"sig" + String(i) + "_"\<close> followed by the field suffix.\<close>

definition sig_key :: "nat \<Rightarrow> string \<Rightarrow> string" where
  "sig_key i field = ''sig'' @ decimal i @ ''_'' @ field"

section \<open>Typed access to the store\<close>

definition getInt :: "prefs \<Rightarrow> string \<Rightarrow> int32 \<Rightarrow> int32" where
  "getInt p k d = (case p k of Some (PInt v) \<Rightarrow> v | _ \<Rightarrow> d)"

definition getUInt :: "prefs \<Rightarrow> string \<Rightarrow> uint32 \<Rightarrow> uint32" where
  "getUInt p k d = (case p k of Some (PUInt v) \<Rightarrow> v | _ \<Rightarrow> d)"

definition getULong :: "prefs \<Rightarrow> string \<Rightarrow> uint32 \<Rightarrow> uint32" where
  "getULong p k d = (case p k of Some (PULong v) \<Rightarrow> v | _ \<Rightarrow> d)"

definition getString :: "prefs \<Rightarrow> string \<Rightarrow> string \<Rightarrow> string" where
  "getString p k d = (case p k of Some (PString v) \<Rightarrow> v | _ \<Rightarrow> d)"

definition getBool :: "prefs \<Rightarrow> string \<Rightarrow> bool \<Rightarrow> bool" where
  "getBool p k d = (case p k of Some (PBool v) \<Rightarrow> v | _ \<Rightarrow> d)"

section \<open>\<open>saveStoredSignals\<close> and \<open>loadStoredSignals\<close>\<close>

text \<open>The six puts of one iteration of the loop of \<open>saveStoredSignals\<close>.\<close>

definition put_signal :: "nat \<Rightarrow> RFSignal \<Rightarrow> prefs \<Rightarrow> prefs" where
  "put_signal i s p =
     p(sig_key i ''name'' \<mapsto> PString (name s),
       sig_key i ''val'' \<mapsto> PULong (val s),
       sig_key i ''bits'' \<mapsto> PUInt (bitLength s),
       sig_key i ''proto'' \<mapsto> PUInt (protocol s),
       sig_key i ''time'' \<mapsto> PULong (timestamp s),
       sig_key i ''fav'' \<mapsto> PBool (isFavorite s))"

text \<open>The loop \<open>for (size_t i = 0; i < storedSignals.size(); i++)\<close>, started at index \<open>i\<close>.\<close>

fun put_signals :: "nat \<Rightarrow> RFSignal list \<Rightarrow> prefs \<Rightarrow> prefs" where
  "put_signals i [] p = p"
| "put_signals i (s # rest) p = put_signals (Suc i) rest (put_signal i s p)"

text \<open>\<open>putInt\<close> takes an \<open>int32_t\<close>: the size is converted, wrapping above \<open>2^31 - 1\<close>.\<close>

definition saveStoredSignals :: "state \<Rightarrow> state" where
  "saveStoredSignals st =
     st\<lparr>preferences :=
          put_signals 0 (storedSignals st)
            ((preferences st)(''signalCount'' \<mapsto> PInt (word_of_nat (length (storedSignals st))),
                              ''nextId'' \<mapsto> PInt (signalCount st)))\<rparr>"

text \<open>The six gets of one iteration of the loop of \<open>loadStoredSignals\<close>.\<close>

definition get_signal :: "prefs \<Rightarrow> nat \<Rightarrow> RFSignal" where
  "get_signal p i =
     \<lparr>name = getString p (sig_key i ''name'') '''',
      val = getULong p (sig_key i ''val'') 0,
      bitLength = getUInt p (sig_key i ''bits'') 0,
      protocol = getUInt p (sig_key i ''proto'') 0,
      timestamp = getULong p (sig_key i ''time'') 0,
      isFavorite = getBool p (sig_key i ''fav'') False\<rparr>"

text \<open>
  \<open>for (int i = 0; i < count; i++)\<close> with the \<open>push_back\<close> guarded by \<open>signal.value != 0\<close>;
  a negative \<open>count\<close> gives no iteration.
\<close>

definition loadStoredSignals :: "state \<Rightarrow> state" where
  "loadStoredSignals st =
     (let count = getInt (preferences st) ''signalCount'' 0
      in st\<lparr>signalCount := getInt (preferences st) ''nextId'' 0,
            storedSignals := storedSignals st @
              filter (\<lambda>s. val s \<noteq> 0) (map (get_signal (preferences st)) [0..<nat (sint count)])\<rparr>)"

section \<open>\<open>isDuplicate\<close> and \<open>performAutoCleanup\<close>\<close>

fun isDuplicate_in :: "RFSignal list \<Rightarrow> RFSignal \<Rightarrow> bool" where
  "isDuplicate_in [] newSignal = False"
| "isDuplicate_in (s # rest) newSignal =
     (if val s = val newSignal \<and> bitLength s = bitLength newSignal \<and> protocol s = protocol newSignal
      then True else isDuplicate_in rest newSignal)"

definition isDuplicate :: "state \<Rightarrow> RFSignal \<Rightarrow> bool" where
  "isDuplicate st newSignal = isDuplicate_in (storedSignals st) newSignal"

text \<open>The comparison lambda handed to \<open>std::sort\<close>.\<close>

definition cleanup_less :: "RFSignal \<Rightarrow> RFSignal \<Rightarrow> bool" where
  "cleanup_less a b =
     (if isFavorite a \<and> \<not> isFavorite b then False
      else if \<not> isFavorite a \<and> isFavorite b then True
      else timestamp a < timestamp b)"

text \<open>
  \<open>std::sort\<close> is not stable: it leaves some permutation of the range in which no
  element compares less than an earlier one, and says nothing more about elements that
  compare equivalent. \<open>sort_outcome xs ys\<close> holds of every arrangement \<open>ys\<close> that the
  call may leave for the archive \<open>xs\<close>; the functions below take that arrangement as
  an argument.
\<close>

definition sort_outcome :: "RFSignal list \<Rightarrow> RFSignal list \<Rightarrow> bool" where
  "sort_outcome xs ys \<longleftrightarrow> mset ys = mset xs \<and> sorted_wrt (\<lambda>a b. \<not> cleanup_less b a) ys"

text \<open>One arrangement that exists for every archive: insertion sort with the same comparison.\<close>

fun insert_by :: "RFSignal \<Rightarrow> RFSignal list \<Rightarrow> RFSignal list" where
  "insert_by x [] = [x]"
| "insert_by x (y # ys) = (if cleanup_less x y then x # y # ys else y # insert_by x ys)"

fun insertion_sort :: "RFSignal list \<Rightarrow> RFSignal list" where
  "insertion_sort [] = []"
| "insertion_sort (x # xs) = insert_by x (insertion_sort xs)"

text \<open>
  The erase loop \<open>while (it != end && removedCount < signalsToRemove)\<close>: the arguments are
  the quota, \<open>removedCount\<close> and the part of the vector from \<open>it\<close> on; the result is that
  part after the loop, and the final \<open>removedCount\<close>.
\<close>

fun erase_oldest :: "nat \<Rightarrow> nat \<Rightarrow> RFSignal list \<Rightarrow> RFSignal list \<times> nat" where
  "erase_oldest quota removedCount [] = ([], removedCount)"
| "erase_oldest quota removedCount (s # rest) =
     (if removedCount < quota then
        (if \<not> isFavorite s then erase_oldest quota (Suc removedCount) rest
         else (let (kept, n) = erase_oldest quota removedCount rest in (s # kept, n)))
      else (s # rest, removedCount))"

text \<open>\<open>performAutoCleanup\<close>, given the arrangement \<open>arranged\<close> left by \<open>std::sort\<close>.\<close>

definition performAutoCleanup :: "RFSignal list \<Rightarrow> state \<Rightarrow> state" where
  "performAutoCleanup arranged st =
     saveStoredSignals (st\<lparr>storedSignals := fst (erase_oldest signalsToRemove 0 arranged)\<rparr>)"

text \<open>The \<open>removedCount\<close> that \<open>performAutoCleanup\<close> prints.\<close>

definition cleanup_removedCount :: "RFSignal list \<Rightarrow> nat" where
  "cleanup_removedCount arranged = snd (erase_oldest signalsToRemove 0 arranged)"

section \<open>\<open>handleReceivedSignal\<close> and \<open>loop\<close>\<close>

text \<open>
  The three branches of lines 148-165, told apart by the message each prints:
  \<open>"Signal stored (n/1000)"\<close>, \<open>"Storage full! Signal not saved."\<close> and
  \<open>"Duplicate signal ignored."\<close>.
\<close>

datatype InsertOutcome = Stored nat | StorageFull | Duplicate

text \<open>The feedback calls: \<open>playReceiveSound()\<close>, \<open>playTransmitSound()\<close>, \<open>flashLED(duration, times)\<close>.\<close>

datatype feedback = ReceiveSound | TransmitSound | FlashLED nat nat

record capture =
  outcome :: "InsertOutcome option"
  effects :: "feedback list"
  after :: state

text \<open>Lines 148-165: the duplicate test, the cleanup at the threshold, the capacity test.\<close>

definition store_if_new :: "RFSignal \<Rightarrow> RFSignal list \<Rightarrow> state \<Rightarrow> InsertOutcome \<times> state" where
  "store_if_new newSignal arranged st =
     (if \<not> isDuplicate st newSignal then
        (let st1 = (if length (storedSignals st) \<ge> AUTO_CLEANUP_THRESHOLD
                    then performAutoCleanup arranged st else st)
         in if length (storedSignals st1) < MAX_SIGNALS then
              (let st2 = saveStoredSignals (st1\<lparr>storedSignals := storedSignals st1 @ [newSignal]\<rparr>)
               in (Stored (length (storedSignals st2)), st2))
            else (StorageFull, st1))
      else (Duplicate, st))"

text \<open>Lines 139-145: the signal built from the readings; the name uses the counter before its increment.\<close>

definition newSignal :: "uint32 \<Rightarrow> uint32 \<Rightarrow> uint32 \<Rightarrow> uint32 \<Rightarrow> state \<Rightarrow> RFSignal" where
  "newSignal v bits proto millis1 st =
     \<lparr>name = ''Signal_'' @ String_of_int (sint (signalCount st)),
      val = v, bitLength = bits, protocol = proto,
      timestamp = millis1, isFavorite = False\<rparr>"

text \<open>
  \<open>handleReceivedSignal\<close>. Its inputs are the three readings of the receiver, the two
  readings of \<open>millis()\<close> (line 143 and line 175) and the arrangement \<open>std::sort\<close> leaves
  if the cleanup runs. A zero value gives no outcome.
\<close>

definition handleReceivedSignal ::
  "uint32 \<Rightarrow> uint32 \<Rightarrow> uint32 \<Rightarrow> uint32 \<Rightarrow> uint32 \<Rightarrow> RFSignal list \<Rightarrow> state \<Rightarrow> capture" where
  "handleReceivedSignal v bits proto millis1 millis2 arranged st =
     (if v \<noteq> 0 then
        (let (oc, st1) = store_if_new (newSignal v bits proto millis1 st) arranged
                           (st\<lparr>signalCount := signalCount st + 1\<rparr>)
         in \<lparr>outcome = Some oc,
             effects = (if buzzerEnabled st1 then [ReceiveSound] else []) @
                       (if ledEnabled st1 then [FlashLED 100 3] else []),
             after = st1\<lparr>lastSignalTime := millis2\<rparr>\<rparr>)
      else \<lparr>outcome = None, effects = [], after = st\<rparr>)"

text \<open>One iteration of \<open>loop\<close>: \<open>if (receiver.available() && sniffingEnabled)\<close>.\<close>

definition loop_body ::
  "bool \<Rightarrow> uint32 \<Rightarrow> uint32 \<Rightarrow> uint32 \<Rightarrow> uint32 \<Rightarrow> uint32 \<Rightarrow> RFSignal list \<Rightarrow> state \<Rightarrow> capture" where
  "loop_body available v bits proto millis1 millis2 arranged st =
     (if available \<and> sniffingEnabled st
      then handleReceivedSignal v bits proto millis1 millis2 arranged st
      else \<lparr>outcome = None, effects = [], after = st\<rparr>)"

section \<open>Start-up and the request handlers of \<open>setupWebServer\<close>\<close>

text \<open>
  The function \<open>setup()\<close> on the store \<open>p\<close>: the globals take their initial values, the
  three flags are read back with their defaults, and \<open>loadStoredSignals\<close> fills the empty
  vector. The early return on a failed SPIFFS mount, the pins, the radio and the network
  are outside the model.
\<close>

definition setup_device :: "prefs \<Rightarrow> state" where
  "setup_device p =
     loadStoredSignals
       \<lparr>sniffingEnabled = getBool p ''sniffingEnabled'' True,
        buzzerEnabled = getBool p ''buzzerEnabled'' True,
        ledEnabled = getBool p ''ledEnabled'' True,
        lastSignalTime = 0, signalCount = 0, storedSignals = [], preferences = p\<rparr>"

definition api_sniffing :: "bool \<Rightarrow> state \<Rightarrow> state" where
  "api_sniffing b st =
     st\<lparr>sniffingEnabled := b, preferences := (preferences st)(''sniffingEnabled'' \<mapsto> PBool b)\<rparr>"

definition api_buzzer :: "bool \<Rightarrow> state \<Rightarrow> state" where
  "api_buzzer b st =
     st\<lparr>buzzerEnabled := b, preferences := (preferences st)(''buzzerEnabled'' \<mapsto> PBool b)\<rparr>"

definition api_led :: "bool \<Rightarrow> state \<Rightarrow> state" where
  "api_led b st =
     st\<lparr>ledEnabled := b, preferences := (preferences st)(''ledEnabled'' \<mapsto> PBool b)\<rparr>"

text \<open>
  The handlers that take an id test \<open>id >= 0 && id < storedSignals.size()\<close> on the
  \<open>int\<close> returned by \<open>toInt()\<close>; a rejected id is answered with status 400 and changes
  nothing.
\<close>

datatype api_error = InvalidId

definition valid_id :: "int32 \<Rightarrow> state \<Rightarrow> bool" where
  "valid_id i st \<longleftrightarrow> 0 \<le> sint i \<and> nat (sint i) < length (storedSignals st)"

definition api_delete :: "int32 \<Rightarrow> state \<Rightarrow> api_error + state" where
  "api_delete i st =
     (if valid_id i st then
        Inr (saveStoredSignals
               (st\<lparr>storedSignals := take (nat (sint i)) (storedSignals st) @
                                        drop (Suc (nat (sint i))) (storedSignals st)\<rparr>))
      else Inl InvalidId)"

definition api_rename :: "int32 \<Rightarrow> string \<Rightarrow> state \<Rightarrow> api_error + state" where
  "api_rename i n st =
     (if valid_id i st then
        Inr (saveStoredSignals
               (st\<lparr>storedSignals :=
                     (storedSignals st)[nat (sint i) := (storedSignals st ! nat (sint i))\<lparr>name := n\<rparr>]\<rparr>))
      else Inl InvalidId)"

definition api_favorite :: "int32 \<Rightarrow> bool \<Rightarrow> state \<Rightarrow> api_error + state" where
  "api_favorite i f st =
     (if valid_id i st then
        Inr (saveStoredSignals
               (st\<lparr>storedSignals :=
                     (storedSignals st)[nat (sint i) := (storedSignals st ! nat (sint i))\<lparr>isFavorite := f\<rparr>]\<rparr>))
      else Inl InvalidId)"

definition api_clear :: "state \<Rightarrow> state" where
  "api_clear st = saveStoredSignals (st\<lparr>storedSignals := [], signalCount := 0\<rparr>)"

text \<open>\<open>/api/cleanup\<close>: the count reported is \<open>originalCount - storedSignals.size()\<close>.\<close>

definition api_cleanup :: "RFSignal list \<Rightarrow> state \<Rightarrow> nat \<times> state" where
  "api_cleanup arranged st =
     (let st1 = performAutoCleanup arranged st
      in (length (storedSignals st) - length (storedSignals st1), st1))"

text \<open>
  \<open>/api/cleanup/old\<close>. \<open>daysOld * 24 * 60 * 60 * 1000UL\<close> and the subtraction from
  \<open>millis()\<close> are 32-bit and wrap; the product in \<open>int\<close> has the same bits as the
  unsigned one. The erase loop keeps a signal unless it is no favorite and its
  timestamp is below the cutoff.
\<close>

definition cutoffTime :: "uint32 \<Rightarrow> int32 \<Rightarrow> uint32" where
  "cutoffTime millis daysOld = millis - daysOld * 24 * 60 * 60 * 1000"

fun erase_old :: "uint32 \<Rightarrow> RFSignal list \<Rightarrow> RFSignal list" where
  "erase_old cutoff [] = []"
| "erase_old cutoff (s # rest) =
     (if \<not> isFavorite s \<and> timestamp s < cutoff then erase_old cutoff rest
      else s # erase_old cutoff rest)"

definition api_cleanup_old :: "int32 option \<Rightarrow> uint32 \<Rightarrow> state \<Rightarrow> nat \<times> state" where
  "api_cleanup_old days millis st =
     (let daysOld = (case days of Some d \<Rightarrow> d | None \<Rightarrow> 7);
          kept = erase_old (cutoffTime millis daysOld) (storedSignals st)
      in (length (storedSignals st) - length kept, saveStoredSignals (st\<lparr>storedSignals := kept\<rparr>)))"

section \<open>The states the device can be in\<close>

text \<open>
  The device starts on an empty store; afterwards it restarts on the store it has, runs
  an iteration of \<open>loop\<close>, or serves a request. Every arrangement \<open>std::sort\<close> may
  leave is allowed, and so is every reading of the receiver and of \<open>millis()\<close>. Requests
  that change no global (status, list, transmit, a request with a missing parameter) have
  no rule.
\<close>

inductive reachable :: "state \<Rightarrow> bool" where
  first_boot: "reachable (setup_device Map.empty)"
| reboot: "reachable st \<Longrightarrow> reachable (setup_device (preferences st))"
| tick: "reachable st \<Longrightarrow> sort_outcome (storedSignals st) ys \<Longrightarrow>
         reachable (after (loop_body available v bits proto millis1 millis2 ys st))"
| sniffing: "reachable st \<Longrightarrow> reachable (api_sniffing b st)"
| buzzer: "reachable st \<Longrightarrow> reachable (api_buzzer b st)"
| led: "reachable st \<Longrightarrow> reachable (api_led b st)"
| delete: "reachable st \<Longrightarrow> api_delete i st = Inr st' \<Longrightarrow> reachable st'"
| rename: "reachable st \<Longrightarrow> api_rename i n st = Inr st' \<Longrightarrow> reachable st'"
| favorite: "reachable st \<Longrightarrow> api_favorite i f st = Inr st' \<Longrightarrow> reachable st'"
| clear: "reachable st \<Longrightarrow> reachable (api_clear st)"
| cleanup: "reachable st \<Longrightarrow> sort_outcome (storedSignals st) ys \<Longrightarrow>
            reachable (snd (api_cleanup ys st))"
| cleanup_old: "reachable st \<Longrightarrow> reachable (snd (api_cleanup_old days millis st))"

section \<open>Example runs\<close>

text \<open>
  The signal that the \<open>k\<close>-th capture of the runs below stores: value \<open>k + 1\<close>, received
  \<open>k + 1\<close> seconds after the start, named from the counter \<open>k\<close>.
\<close>

definition sig_no :: "nat \<Rightarrow> bool \<Rightarrow> RFSignal" where
  "sig_no k f =
     \<lparr>name = ''Signal_'' @ String_of_int (sint (word_of_nat k :: int32)),
      val = word_of_nat (Suc k), bitLength = 24, protocol = 1,
      timestamp = word_of_nat (1000 * Suc k), isFavorite = f\<rparr>"

text \<open>A first start followed by \<open>n\<close> captures of different codes, one per second.\<close>

fun captured :: "nat \<Rightarrow> state" where
  "captured 0 = setup_device Map.empty"
| "captured (Suc n) =
     after (loop_body True (word_of_nat (Suc n)) 24 1
              (word_of_nat (1000 * Suc n)) (word_of_nat (1000 * Suc n + 820))
              (storedSignals (captured n)) (captured n))"

text \<open>The same run where each stored signal is marked favorite right after its capture.\<close>

fun favorited :: "nat \<Rightarrow> state" where
  "favorited 0 = setup_device Map.empty"
| "favorited (Suc n) =
     (let st = after (loop_body True (word_of_nat (Suc n)) 24 1
                        (word_of_nat (1000 * Suc n)) (word_of_nat (1000 * Suc n + 820))
                        (storedSignals (favorited n)) (favorited n))
      in case api_favorite (word_of_nat n) True st of Inr st' \<Rightarrow> st' | Inl e \<Rightarrow> st)"

declare captured.simps [simp del] favorited.simps [simp del]

text \<open>
  The run of 950 captures after which the signal with id 0 is marked favorite, and the
  arrangement the sort of a cleanup leaves for it: the 949 others by age, the favorite last.
\<close>

definition one_favorite :: state where
  "one_favorite = (case api_favorite 0 True (captured 950) of Inr st \<Rightarrow> st | Inl e \<Rightarrow> captured 950)"

definition one_favorite_arranged :: "RFSignal list" where
  "one_favorite_arranged = map (\<lambda>k. sig_no k False) [1..<950] @ [sig_no 0 True]"

text \<open>
  A run that fills the archive with favorites: 999 captures each marked favorite, a
  restart (the clock starts again at 0, capture is switched on), one more capture half a
  second after the restart, marked favorite too. The last signal is then older, by its
  timestamp, than all the others, so the sort of a cleanup moves it to the front.
\<close>

definition rebooted :: state where
  "rebooted = api_sniffing True (setup_device (preferences (favorited 999)))"

definition late_sig :: RFSignal where
  "late_sig = (newSignal 5000 24 1 500 rebooted)\<lparr>isFavorite := True\<rparr>"

definition full_state :: state where
  "full_state =
     (let st = after (loop_body True 5000 24 1 500 1320 (storedSignals rebooted) rebooted)
      in case api_favorite 999 True st of Inr st' \<Rightarrow> st' | Inl e \<Rightarrow> st)"

definition full_arranged :: "RFSignal list" where
  "full_arranged = late_sig # map (\<lambda>k. sig_no k True) [0..<999]"

section \<open>Invariants of the archive and of the store\<close>

text \<open>
  What every archive of the device satisfies: at most \<open>MAX_SIGNALS\<close> entries, no zero
  value, no triple twice.
\<close>

definition archive_ok :: "RFSignal list \<Rightarrow> bool" where
  "archive_ok xs \<longleftrightarrow>
     length xs \<le> MAX_SIGNALS \<and> (\<forall>s \<in> set xs. val s \<noteq> 0) \<and> distinct (map triple xs)"

text \<open>The store holds the snapshot of the archive: its count and its entries, in order.\<close>

definition store_in_sync :: "state \<Rightarrow> bool" where
  "store_in_sync st \<longleftrightarrow>
     getInt (preferences st) ''signalCount'' 0 = word_of_nat (length (storedSignals st)) \<and>
     map (get_signal (preferences st)) [0..<length (storedSignals st)] = storedSignals st"

definition archive_inv :: "state \<Rightarrow> bool" where
  "archive_inv st \<longleftrightarrow> archive_ok (storedSignals st) \<and> store_in_sync st"

section \<open>The erase loop and the arrangement left by the sort\<close>

lemma isDuplicate_in_iff:
  "isDuplicate_in xs n \<longleftrightarrow> triple n \<in> triple ` set xs"
  by (induction xs) (auto simp: triple_def)

lemma erase_oldest_nonfav:
  "filter (\<lambda>s. \<not> isFavorite s) (fst (erase_oldest q c xs)) = drop (q - c) (filter (\<lambda>s. \<not> isFavorite s) xs)"
proof (induction xs arbitrary: c)
  case Nil
  then show ?case by simp
next
  case (Cons s rest)
  show ?case
  proof (cases "c < q")
    case True
    then obtain k where k: "q - c = Suc k" and k': "q - Suc c = k"
      by (metis Suc_diff_Suc)
    show ?thesis using True Cons [of c] Cons [of "Suc c"] k k'
      by (simp add: split_beta)
  next
    case False
    then show ?thesis by simp
  qed
qed

lemma erase_oldest_fav:
  "filter isFavorite (fst (erase_oldest q c xs)) = filter isFavorite xs"
  by (induction xs arbitrary: c) (auto simp: split_beta)

lemma erase_oldest_count:
  "snd (erase_oldest q c xs) = (if c < q then min q (c + length (filter (\<lambda>s. \<not> isFavorite s) xs)) else c)"
  by (induction xs arbitrary: c) (auto simp: split_beta)

lemma length_by_favorite:
  "length xs = length (filter (\<lambda>s. \<not> isFavorite s) xs) + length (filter isFavorite xs)"
  by (induction xs) auto

lemma erase_oldest_length:
  "length (fst (erase_oldest q c xs)) = length xs - min (q - c) (length (filter (\<lambda>s. \<not> isFavorite s) xs))"
proof -
  have "length (fst (erase_oldest q c xs)) =
        length (drop (q - c) (filter (\<lambda>s. \<not> isFavorite s) xs)) + length (filter isFavorite xs)"
    using length_by_favorite [of "fst (erase_oldest q c xs)"]
    by (simp only: erase_oldest_nonfav erase_oldest_fav)
  then show ?thesis
    using length_by_favorite [of xs] by (simp add: min_def)
qed

lemma sorted_split:
  "sorted_wrt (\<lambda>a b. \<not> cleanup_less b a) ys \<Longrightarrow>
     ys = filter (\<lambda>s. \<not> isFavorite s) ys @ filter isFavorite ys"
proof (induction ys)
  case Nil
  then show ?case by simp
next
  case (Cons y ys)
  show ?case
  proof (cases "isFavorite y")
    case True
    with Cons.prems have "\<forall>b \<in> set ys. isFavorite b"
      by (auto simp: cleanup_less_def split: if_splits)
    then have "filter (\<lambda>s. \<not> isFavorite s) ys = []" and "filter isFavorite ys = ys"
      by (auto simp: filter_empty_conv filter_id_conv)
    with True show ?thesis by simp
  next
    case False
    with Cons show ?thesis by simp
  qed
qed

lemma sorted_nonfav_timestamps:
  "sorted_wrt (\<lambda>a b. \<not> cleanup_less b a) ys \<Longrightarrow>
     sorted (map timestamp (filter (\<lambda>s. \<not> isFavorite s) ys))"
  by (induction ys) (auto simp: cleanup_less_def split: if_splits)

lemma sorted_fav_timestamps:
  "sorted_wrt (\<lambda>a b. \<not> cleanup_less b a) ys \<Longrightarrow>
     sorted (map timestamp (filter isFavorite ys))"
  by (induction ys) (auto simp: cleanup_less_def split: if_splits)


lemma erase_oldest_all_fav:
  "\<forall>s \<in> set xs. isFavorite s \<Longrightarrow> fst (erase_oldest q c xs) = xs"
  by (induction xs arbitrary: c) (auto simp: split_beta)

lemma erase_oldest_append:
  "\<forall>s \<in> set xs. \<not> isFavorite s \<Longrightarrow> \<forall>s \<in> set zs. isFavorite s \<Longrightarrow>
     fst (erase_oldest q c (xs @ zs)) = drop (q - c) xs @ zs"
proof (induction xs arbitrary: c)
  case Nil
  then show ?case by (simp add: erase_oldest_all_fav)
next
  case (Cons s rest)
  show ?case
  proof (cases "c < q")
    case True
    then obtain k where k: "q - c = Suc k" and k': "q - Suc c = k"
      by (metis Suc_diff_Suc)
    show ?thesis using True Cons.IH [of "Suc c"] Cons.prems k k'
      by simp
  next
    case False
    then show ?thesis by simp
  qed
qed

lemma erase_oldest_sorted:
  assumes "sorted_wrt (\<lambda>a b. \<not> cleanup_less b a) ys"
  shows "fst (erase_oldest q 0 ys) = drop q (filter (\<lambda>s. \<not> isFavorite s) ys) @ filter isFavorite ys"
proof -
  have "fst (erase_oldest q 0 (filter (\<lambda>s. \<not> isFavorite s) ys @ filter isFavorite ys)) =
        drop (q - 0) (filter (\<lambda>s. \<not> isFavorite s) ys) @ filter isFavorite ys"
    by (rule erase_oldest_append) simp_all
  then show ?thesis
    using sorted_split [OF assms] by simp
qed

lemma cleanup_less_trans:
  "cleanup_less a b \<Longrightarrow> cleanup_less b c \<Longrightarrow> cleanup_less a c"
  by (auto simp: cleanup_less_def split: if_splits)

lemma set_insert_by: "set (insert_by x ys) = insert x (set ys)"
  by (induction ys) auto

lemma mset_insert_by: "mset (insert_by x ys) = add_mset x (mset ys)"
  by (induction ys) auto

lemma cleanup_less_asym: "cleanup_less a b \<Longrightarrow> \<not> cleanup_less b a"
  by (auto simp: cleanup_less_def split: if_splits)

lemma sorted_insert_by:
  "sorted_wrt (\<lambda>a b. \<not> cleanup_less b a) ys \<Longrightarrow> sorted_wrt (\<lambda>a b. \<not> cleanup_less b a) (insert_by x ys)"
proof (induction ys)
  case Nil
  then show ?case by simp
next
  case (Cons y ys)
  show ?case
  proof (cases "cleanup_less x y")
    case True
    have "\<not> cleanup_less z x" if "z \<in> set (y # ys)" for z
    proof
      assume "cleanup_less z x"
      then have "cleanup_less z y" using True by (rule cleanup_less_trans)
      with that Cons.prems True show False
        by (auto dest: cleanup_less_asym)
    qed
    with True Cons.prems show ?thesis by simp
  next
    case False
    with Cons show ?thesis by (auto simp: set_insert_by)
  qed
qed

lemma sort_outcome_insertion_sort: "sort_outcome xs (insertion_sort xs)"
  unfolding sort_outcome_def
  by (induction xs) (simp_all add: mset_insert_by sorted_insert_by)

section \<open>Keys of the store\<close>

lemma of_char_digit_char: "d < 10 \<Longrightarrow> of_char (digit_char d) = 48 + d"
  by (simp add: digit_char_def)

lemma digit_char_not_underscore: "d < 10 \<Longrightarrow> digit_char d \<noteq> CHR ''_''"
proof
  assume "d < 10" and "digit_char d = CHR ''_''"
  then have "(of_char (digit_char d) :: nat) = of_char (CHR ''_'')" by simp
  with \<open>d < 10\<close> show False by (simp add: of_char_digit_char)
qed

lemma digit_char_not_n: "d < 10 \<Longrightarrow> digit_char d \<noteq> CHR ''n''"
proof
  assume "d < 10" and "digit_char d = CHR ''n''"
  then have "(of_char (digit_char d) :: nat) = of_char (CHR ''n'')" by simp
  with \<open>d < 10\<close> show False by (simp add: of_char_digit_char)
qed

lemma digit_char_inj: "a < 10 \<Longrightarrow> b < 10 \<Longrightarrow> digit_char a = digit_char b \<Longrightarrow> a = b"
proof -
  assume "a < 10" "b < 10" "digit_char a = digit_char b"
  then have "(of_char (digit_char a) :: nat) = of_char (digit_char b)" by simp
  with \<open>a < 10\<close> \<open>b < 10\<close> show "a = b" by (simp add: of_char_digit_char)
qed

lemma decimal_not_Nil: "decimal n \<noteq> []"
  by (subst decimal.simps) simp

lemma decimal_digits: "c \<in> set (decimal n) \<Longrightarrow> \<exists>d<10. c = digit_char d"
proof (induction n rule: decimal.induct)
  case (1 n)
  show ?case
  proof (cases "n < 10")
    case True
    with "1.prems" show ?thesis by (subst (asm) decimal.simps) auto
  next
    case False
    from "1.prems" have "c \<in> set (decimal (n div 10)) \<or> c = digit_char (n mod 10)"
      using False by (subst (asm) decimal.simps) auto
    then show ?thesis
    proof
      assume "c \<in> set (decimal (n div 10))"
      then show ?thesis using "1.IH" False by simp
    next
      assume "c = digit_char (n mod 10)"
      moreover have "n mod 10 < 10" by simp
      ultimately show ?thesis by blast
    qed
  qed
qed

lemma underscore_not_in_decimal: "CHR ''_'' \<notin> set (decimal n)"
  using decimal_digits digit_char_not_underscore by metis

lemma hd_decimal_not_n: "hd (decimal n) \<noteq> CHR ''n''"
  using decimal_digits [of "hd (decimal n)" n] decimal_not_Nil [of n] digit_char_not_n
  by (metis hd_in_set)

lemma decimal_inj: "decimal n = decimal m \<Longrightarrow> n = m"
proof (induction n arbitrary: m rule: decimal.induct)
  case (1 n)
  show ?case
  proof (cases "n < 10")
    case n: True
    show ?thesis
    proof (cases "m < 10")
      case True
      with n "1.prems" show ?thesis
        by (simp add: decimal.simps [of n] decimal.simps [of m] digit_char_inj)
    next
      case False
      with n "1.prems" show ?thesis
        using decimal_not_Nil [of "m div 10"]
        by (simp add: decimal.simps [of n] decimal.simps [of m])
    qed
  next
    case n: False
    show ?thesis
    proof (cases "m < 10")
      case True
      with n "1.prems" show ?thesis
        using decimal_not_Nil [of "n div 10"]
        by (simp add: decimal.simps [of n] decimal.simps [of m])
    next
      case False
      with n "1.prems" have eq: "decimal (n div 10) = decimal (m div 10)"
        and d: "digit_char (n mod 10) = digit_char (m mod 10)"
        by (simp_all add: decimal.simps [of n] decimal.simps [of m])
      from "1.IH" [OF n eq] have "n div 10 = m div 10" .
      moreover from d have "n mod 10 = m mod 10" by (simp add: digit_char_inj)
      ultimately show ?thesis by (metis div_mult_mod_eq)
    qed
  qed
qed

lemma split_at_separator:
  "c \<notin> set xs \<Longrightarrow> c \<notin> set ys \<Longrightarrow> xs @ c # s = ys @ c # t \<Longrightarrow> xs = ys \<and> s = t"
proof (induction xs arbitrary: ys)
  case Nil
  then show ?case by (cases ys) auto
next
  case (Cons x xs)
  then show ?case by (cases ys) auto
qed

lemma sig_key_eq_iff: "sig_key i f = sig_key j g \<longleftrightarrow> i = j \<and> f = g"
proof
  assume "sig_key i f = sig_key j g"
  then have "decimal i @ CHR ''_'' # f = decimal j @ CHR ''_'' # g"
    by (simp add: sig_key_def)
  then have "decimal i = decimal j \<and> f = g"
    by (rule split_at_separator [OF underscore_not_in_decimal underscore_not_in_decimal])
  then show "i = j \<and> f = g" by (simp add: decimal_inj)
qed simp

lemma sig_key_4th: "sig_key i f ! 3 = hd (decimal i)"
  using decimal_not_Nil [of i] by (cases "decimal i") (simp_all add: sig_key_def)

lemma sig_key_not_signalCount: "sig_key i f \<noteq> ''signalCount''"
proof
  assume "sig_key i f = ''signalCount''"
  then have "sig_key i f ! 3 = ''signalCount'' ! 3" by simp
  then show False using hd_decimal_not_n [of i] by (simp add: sig_key_4th)
qed

lemma sig_key_not_nextId: "sig_key i f \<noteq> ''nextId''"
  by (simp add: sig_key_def)

lemma sig_key_not_flags:
  "sig_key i f \<noteq> ''sniffingEnabled''" "sig_key i f \<noteq> ''buzzerEnabled''" "sig_key i f \<noteq> ''ledEnabled''"
  by (simp_all add: sig_key_def)

lemma get_signal_put_signal_same: "get_signal (put_signal i s p) i = s"
  by (simp add: get_signal_def put_signal_def sig_key_eq_iff
      getString_def getULong_def getUInt_def getBool_def)

lemma put_signal_other: "(\<And>f. k \<noteq> sig_key j f) \<Longrightarrow> put_signal j s p k = p k"
  by (simp add: put_signal_def)

lemma put_signals_other: "(\<And>j f. i \<le> j \<Longrightarrow> k \<noteq> sig_key j f) \<Longrightarrow> put_signals i xs p k = p k"
proof (induction xs arbitrary: i p)
  case Nil
  then show ?case by simp
next
  case (Cons s rest)
  have "put_signals (Suc i) rest (put_signal i s p) k = put_signal i s p k"
    by (rule Cons.IH) (simp add: Cons.prems)
  also have "\<dots> = p k"
    by (rule put_signal_other) (simp add: Cons.prems)
  finally show ?case by simp
qed

lemma get_signal_cong: "(\<And>f. p (sig_key i f) = q (sig_key i f)) \<Longrightarrow> get_signal p i = get_signal q i"
  by (simp add: get_signal_def getString_def getULong_def getUInt_def getBool_def)

lemma get_signal_put_signals_below: "i < k \<Longrightarrow> get_signal (put_signals k xs p) i = get_signal p i"
  by (rule get_signal_cong, rule put_signals_other) (simp add: sig_key_eq_iff)

lemma map_get_signal_put_signals:
  "map (get_signal (put_signals k xs p)) [k..<k + length xs] = xs"
proof (induction xs arbitrary: k p)
  case Nil
  then show ?case by simp
next
  case (Cons s rest)
  have "get_signal (put_signals (Suc k) rest (put_signal k s p)) k = s"
    by (simp add: get_signal_put_signals_below get_signal_put_signal_same)
  moreover have "map (get_signal (put_signals (Suc k) rest (put_signal k s p))) [Suc k..<Suc k + length rest] = rest"
    by (rule Cons.IH)
  moreover have "[k..<k + length (s # rest)] = k # [Suc k..<Suc k + length rest]"
    by (simp add: upt_conv_Cons del: upt_Suc)
  ultimately show ?case by (simp del: upt_Suc)
qed

lemma sint_word_of_nat_length: "n < 2 ^ 31 \<Longrightarrow> sint (word_of_nat n :: 32 word) = int n"
  by (simp add: signed_of_nat signed_take_bit_int_eq_self)

section \<open>The operations keep the invariants\<close>

lemma set_erase_oldest: "set (fst (erase_oldest q c xs)) \<subseteq> set xs"
  by (induction xs arbitrary: c) (auto simp: split_beta)

lemma distinct_erase_oldest:
  "distinct (map f xs) \<Longrightarrow> distinct (map f (fst (erase_oldest q c xs)))"
proof (induction xs arbitrary: c)
  case Nil
  then show ?case by simp
next
  case (Cons s rest)
  have "f s \<notin> f ` set (fst (erase_oldest q c rest))"
    using Cons.prems set_erase_oldest [of q c rest] by auto
  with Cons show ?case by (simp add: split_beta)
qed

lemma length_erase_oldest_le: "length (fst (erase_oldest q c xs)) \<le> length xs"
  by (simp add: erase_oldest_length)

lemma archive_ok_arranged:
  assumes "archive_ok xs" and "mset ys = mset xs"
  shows "archive_ok ys"
proof -
  have "mset (map triple ys) = mset (map triple xs)"
    using assms(2) by simp
  then have "distinct (map triple ys) \<longleftrightarrow> distinct (map triple xs)"
    by (rule mset_eq_imp_distinct_iff)
  moreover have "set ys = set xs" using assms(2) by (rule mset_eq_setD)
  moreover have "length ys = length xs" using assms(2) by (rule mset_eq_length)
  ultimately show ?thesis using assms(1) by (simp add: archive_ok_def)
qed

lemma archive_ok_erase_oldest:
  assumes "archive_ok ys"
  shows "archive_ok (fst (erase_oldest q c ys))"
  using assms set_erase_oldest [of q c ys] length_erase_oldest_le [of q c ys]
  by (auto simp: archive_ok_def distinct_erase_oldest)

lemma erase_old_filter:
  "erase_old cutoff xs = filter (\<lambda>s. \<not> (\<not> isFavorite s \<and> timestamp s < cutoff)) xs"
  by (induction xs) auto

lemma archive_ok_filter: "archive_ok xs \<Longrightarrow> archive_ok (filter P xs)"
  using length_filter_le [of P xs]
  by (auto simp: archive_ok_def distinct_map_filter simp del: length_filter_le)

lemma archive_ok_delete:
  assumes "archive_ok xs"
  shows "archive_ok (take i xs @ drop (Suc i) xs)"
proof -
  have d: "distinct (map triple xs)" using assms by (simp add: archive_ok_def)
  have "set (take i (map triple xs)) \<inter> set (drop (Suc i) (map triple xs)) = {}"
    by (rule set_take_disj_set_drop_if_distinct [OF d]) simp
  moreover have "distinct (take i (map triple xs))" and "distinct (drop (Suc i) (map triple xs))"
    using d by simp_all
  ultimately have "distinct (take i (map triple xs) @ drop (Suc i) (map triple xs))"
    by simp
  then have "distinct (map triple (take i xs @ drop (Suc i) xs))"
    by (simp only: map_append take_map drop_map)
  moreover have "set (take i xs @ drop (Suc i) xs) \<subseteq> set xs"
    using set_take_subset [of i xs] set_drop_subset [of "Suc i" xs] by auto
  ultimately show ?thesis using assms by (auto simp: archive_ok_def)
qed

lemma archive_ok_update:
  assumes "archive_ok xs" and "i < length xs" and "triple x = triple (xs ! i)"
  shows "archive_ok (xs[i := x])"
proof -
  have "map triple (xs[i := x]) = map triple xs"
    using assms(2,3) by (simp add: map_update list_update_same_conv)
  moreover have "val x \<noteq> 0"
    using assms by (auto simp: archive_ok_def triple_def)
  moreover have "set (xs[i := x]) \<subseteq> insert x (set xs)"
    by (rule set_update_subset_insert)
  ultimately show ?thesis using assms(1) by (auto simp: archive_ok_def)
qed

lemma archive_ok_append:
  assumes "archive_ok xs" and "length xs < MAX_SIGNALS" and "val s \<noteq> 0" and "\<not> isDuplicate_in xs s"
  shows "archive_ok (xs @ [s])"
  using assms by (auto simp: archive_ok_def isDuplicate_in_iff)

lemma store_in_sync_save: "store_in_sync (saveStoredSignals st)"
proof -
  have "map (get_signal (put_signals 0 (storedSignals st) p)) [0..<0 + length (storedSignals st)] = storedSignals st" for p
    by (rule map_get_signal_put_signals)
  moreover have "put_signals 0 xs p ''signalCount'' = p ''signalCount''" for xs p
    by (rule put_signals_other) (simp add: sig_key_not_signalCount [symmetric])
  ultimately show ?thesis
    by (simp add: store_in_sync_def saveStoredSignals_def getInt_def)
qed

lemma storedSignals_save [simp]: "storedSignals (saveStoredSignals st) = storedSignals st"
  by (simp add: saveStoredSignals_def)

lemma load_in_sync:
  assumes "store_in_sync st" and "archive_ok (storedSignals st)"
  shows "storedSignals (loadStoredSignals (st0\<lparr>storedSignals := [], preferences := preferences st\<rparr>)) = storedSignals st"
proof -
  have "length (storedSignals st) < 2 ^ 31"
    using assms(2) by (simp add: archive_ok_def MAX_SIGNALS_def)
  then have "nat (sint (word_of_nat (length (storedSignals st)) :: 32 word)) = length (storedSignals st)"
    by (simp add: sint_word_of_nat_length)
  moreover have "filter (\<lambda>s. val s \<noteq> 0) (storedSignals st) = storedSignals st"
    using assms(2) by (simp add: archive_ok_def filter_id_conv)
  ultimately show ?thesis
    using assms(1) by (simp add: loadStoredSignals_def store_in_sync_def)
qed

lemma archive_inv_cong:
  "storedSignals st' = storedSignals st \<Longrightarrow> preferences st' = preferences st \<Longrightarrow>
     archive_inv st' = archive_inv st"
  by (simp add: archive_inv_def store_in_sync_def)

lemma archive_inv_save:
  "archive_ok (storedSignals st) \<Longrightarrow> archive_inv (saveStoredSignals st)"
  by (simp add: archive_inv_def store_in_sync_save)

lemma archive_inv_cleanup:
  assumes "archive_inv st" and "sort_outcome (storedSignals st) ys"
  shows "archive_inv (performAutoCleanup ys st)"
proof -
  have "archive_ok ys"
    using assms by (auto simp: archive_inv_def sort_outcome_def intro: archive_ok_arranged)
  then show ?thesis
    unfolding performAutoCleanup_def
    by (intro archive_inv_save) (simp add: archive_ok_erase_oldest)
qed

lemma set_cleanup_subset:
  assumes "sort_outcome (storedSignals st) ys"
  shows "set (storedSignals (performAutoCleanup ys st)) \<subseteq> set (storedSignals st)"
proof -
  have "set ys = set (storedSignals st)"
    using assms by (auto simp: sort_outcome_def dest: mset_eq_setD)
  then show ?thesis
    using set_erase_oldest [of signalsToRemove 0 ys] by (simp add: performAutoCleanup_def)
qed

lemma archive_inv_store_if_new:
  assumes "archive_inv st" and "sort_outcome (storedSignals st) ys" and "val s \<noteq> 0"
  shows "archive_inv (snd (store_if_new s ys st))"
proof (cases "isDuplicate st s")
  case True
  with assms(1) show ?thesis by (simp add: store_if_new_def)
next
  case False
  define st1 where "st1 = (if length (storedSignals st) \<ge> AUTO_CLEANUP_THRESHOLD
                    then performAutoCleanup ys st else st)"
  have inv1: "archive_inv st1"
    using assms(1,2) by (simp add: st1_def archive_inv_cleanup)
  have sub: "set (storedSignals st1) \<subseteq> set (storedSignals st)"
    using set_cleanup_subset [OF assms(2)] by (simp add: st1_def)
  show ?thesis
  proof (cases "length (storedSignals st1) < MAX_SIGNALS")
    case full: False
    with False inv1 show ?thesis
      by (simp add: store_if_new_def st1_def [symmetric])
  next
    case room: True
    have "\<not> isDuplicate_in (storedSignals st1) s"
      using False sub by (auto simp: isDuplicate_def isDuplicate_in_iff)
    with inv1 room assms(3) have "archive_ok (storedSignals st1 @ [s])"
      by (simp add: archive_inv_def archive_ok_append)
    then have "archive_inv (saveStoredSignals (st1\<lparr>storedSignals := storedSignals st1 @ [s]\<rparr>))"
      by (intro archive_inv_save) simp
    with False room show ?thesis
      by (simp add: store_if_new_def st1_def [symmetric] Let_def)
  qed
qed

lemma archive_inv_loop_body:
  assumes "archive_inv st" and "sort_outcome (storedSignals st) ys"
  shows "archive_inv (after (loop_body available v bits proto m1 m2 ys st))"
proof (cases "available \<and> sniffingEnabled st \<and> v \<noteq> 0")
  case False
  with assms(1) show ?thesis
    by (auto simp: loop_body_def handleReceivedSignal_def)
next
  case True
  define s where "s = newSignal v bits proto m1 st"
  define st0 where "st0 = st\<lparr>signalCount := signalCount st + 1\<rparr>"
  have "archive_inv st0"
    using assms(1) by (simp add: st0_def archive_inv_def store_in_sync_def)
  moreover have "sort_outcome (storedSignals st0) ys"
    using assms(2) by (simp add: st0_def)
  moreover have "val s \<noteq> 0" using True by (simp add: s_def newSignal_def)
  ultimately have "archive_inv (snd (store_if_new s ys st0))"
    by (rule archive_inv_store_if_new)
  moreover have "after (loop_body available v bits proto m1 m2 ys st) =
        (snd (store_if_new s ys st0))\<lparr>lastSignalTime := m2\<rparr>"
    using True by (simp add: loop_body_def handleReceivedSignal_def s_def st0_def split_beta Let_def)
  ultimately show ?thesis
    by (simp add: archive_inv_def store_in_sync_def)
qed

lemma archive_inv_setup:
  assumes "archive_inv st"
  shows "archive_inv (setup_device (preferences st))"
proof -
  let ?st0 = "\<lparr>sniffingEnabled = getBool (preferences st) ''sniffingEnabled'' True,
        buzzerEnabled = getBool (preferences st) ''buzzerEnabled'' True,
        ledEnabled = getBool (preferences st) ''ledEnabled'' True,
        lastSignalTime = 0, signalCount = 0, storedSignals = [], preferences = preferences st\<rparr>"
  have "storedSignals (loadStoredSignals (?st0\<lparr>storedSignals := [], preferences := preferences st\<rparr>)) = storedSignals st"
    using assms by (intro load_in_sync) (simp_all add: archive_inv_def)
  then have "storedSignals (setup_device (preferences st)) = storedSignals st"
    by (simp add: setup_device_def)
  moreover have "preferences (setup_device (preferences st)) = preferences st"
    by (simp add: setup_device_def loadStoredSignals_def Let_def)
  ultimately have "archive_inv (setup_device (preferences st)) = archive_inv st"
    by (rule archive_inv_cong)
  with assms show ?thesis by simp
qed

lemma archive_inv_first_boot: "archive_inv (setup_device Map.empty)"
  by (simp add: archive_inv_def archive_ok_def store_in_sync_def setup_device_def
      loadStoredSignals_def getInt_def)

lemma archive_inv_flag:
  assumes "archive_inv st" and "storedSignals st' = storedSignals st"
    and "preferences st' = (preferences st)(k \<mapsto> PBool b)"
    and "k \<noteq> ''signalCount''" and "\<And>i f. k \<noteq> sig_key i f"
  shows "archive_inv st'"
proof -
  have "get_signal ((preferences st)(k \<mapsto> PBool b)) = get_signal (preferences st)"
    by (rule ext, rule get_signal_cong) (simp add: assms(5) [symmetric])
  then show ?thesis
    using assms(1,2,3,4) by (simp add: archive_inv_def store_in_sync_def getInt_def)
qed

lemma archive_inv_reachable: "reachable st \<Longrightarrow> archive_inv st"
proof (induction rule: reachable.induct)
  case first_boot
  show ?case by (rule archive_inv_first_boot)
next
  case (reboot st)
  then show ?case by (simp add: archive_inv_setup)
next
  case (tick st ys available v bits proto millis1 millis2)
  then show ?case by (simp add: archive_inv_loop_body)
next
  case (sniffing st b)
  from sniffing.IH show ?case
    by (rule archive_inv_flag [where k = "''sniffingEnabled''" and b = b])
       (simp_all add: api_sniffing_def sig_key_not_flags [symmetric])
next
  case (buzzer st b)
  from buzzer.IH show ?case
    by (rule archive_inv_flag [where k = "''buzzerEnabled''" and b = b])
       (simp_all add: api_buzzer_def sig_key_not_flags [symmetric])
next
  case (led st b)
  from led.IH show ?case
    by (rule archive_inv_flag [where k = "''ledEnabled''" and b = b])
       (simp_all add: api_led_def sig_key_not_flags [symmetric])
next
  case (delete st i st')
  then have st': "st' = saveStoredSignals
               (st\<lparr>storedSignals := take (nat (sint i)) (storedSignals st) @
                                        drop (Suc (nat (sint i))) (storedSignals st)\<rparr>)"
    by (auto simp: api_delete_def split: if_splits)
  show ?case unfolding st'
    using delete.IH
    by (intro archive_inv_save) (simp add: archive_ok_delete archive_inv_def)
next
  case (rename st i n st')
  then have v: "valid_id i st" and st': "st' = saveStoredSignals
               (st\<lparr>storedSignals :=
                     (storedSignals st)[nat (sint i) := (storedSignals st ! nat (sint i))\<lparr>name := n\<rparr>]\<rparr>)"
    by (auto simp: api_rename_def split: if_splits)
  show ?case unfolding st'
    using v rename.IH
    by (intro archive_inv_save) (simp add: archive_ok_update archive_inv_def valid_id_def triple_def)
next
  case (favorite st i f st')
  then have v: "valid_id i st" and st': "st' = saveStoredSignals
               (st\<lparr>storedSignals :=
                     (storedSignals st)[nat (sint i) := (storedSignals st ! nat (sint i))\<lparr>isFavorite := f\<rparr>]\<rparr>)"
    by (auto simp: api_favorite_def split: if_splits)
  show ?case unfolding st'
    using v favorite.IH
    by (intro archive_inv_save) (simp add: archive_ok_update archive_inv_def valid_id_def triple_def)
next
  case (clear st)
  show ?case unfolding api_clear_def
    by (intro archive_inv_save) (simp add: archive_ok_def)
next
  case (cleanup st ys)
  then show ?case by (simp add: api_cleanup_def Let_def archive_inv_cleanup)
next
  case (cleanup_old st days millis)
  have "archive_ok (erase_old c (storedSignals st))" for c
    unfolding erase_old_filter using cleanup_old.IH
    by (intro archive_ok_filter) (simp add: archive_inv_def)
  then have "archive_inv (saveStoredSignals (st\<lparr>storedSignals := erase_old c (storedSignals st)\<rparr>))" for c
    by (intro archive_inv_save) simp
  then show ?case by (simp add: api_cleanup_old_def Let_def)
qed

section \<open>What \<open>handleReceivedSignal\<close> computes\<close>

lemma flags_save [simp]:
  "buzzerEnabled (saveStoredSignals st) = buzzerEnabled st"
  "ledEnabled (saveStoredSignals st) = ledEnabled st"
  "sniffingEnabled (saveStoredSignals st) = sniffingEnabled st"
  "signalCount (saveStoredSignals st) = signalCount st"
  "lastSignalTime (saveStoredSignals st) = lastSignalTime st"
  by (simp_all add: saveStoredSignals_def)

lemma storedSignals_cleanup:
  "storedSignals (performAutoCleanup ys st) = fst (erase_oldest signalsToRemove 0 ys)"
  by (simp add: performAutoCleanup_def)

lemma flags_cleanup [simp]:
  "buzzerEnabled (performAutoCleanup ys st) = buzzerEnabled st"
  "ledEnabled (performAutoCleanup ys st) = ledEnabled st"
  "sniffingEnabled (performAutoCleanup ys st) = sniffingEnabled st"
  "signalCount (performAutoCleanup ys st) = signalCount st"
  "lastSignalTime (performAutoCleanup ys st) = lastSignalTime st"
  by (simp_all add: performAutoCleanup_def)

lemma flags_store_if_new:
  "buzzerEnabled (snd (store_if_new s ys st)) = buzzerEnabled st"
  "ledEnabled (snd (store_if_new s ys st)) = ledEnabled st"
  "sniffingEnabled (snd (store_if_new s ys st)) = sniffingEnabled st"
  "signalCount (snd (store_if_new s ys st)) = signalCount st"
  "lastSignalTime (snd (store_if_new s ys st)) = lastSignalTime st"
  by (simp_all add: store_if_new_def Let_def)

text \<open>The archive that lines 150-152 leave: cleaned up at the threshold, untouched below it.\<close>

lemma storedSignals_store_if_new:
  "storedSignals (snd (store_if_new s ys st)) =
     (if isDuplicate_in (storedSignals st) s then storedSignals st
      else if length (storedSignals st) \<ge> AUTO_CLEANUP_THRESHOLD
      then (if length (fst (erase_oldest signalsToRemove 0 ys)) < MAX_SIGNALS
            then fst (erase_oldest signalsToRemove 0 ys) @ [s]
            else fst (erase_oldest signalsToRemove 0 ys))
      else (if length (storedSignals st) < MAX_SIGNALS then storedSignals st @ [s]
            else storedSignals st))"
  by (simp add: store_if_new_def Let_def isDuplicate_def storedSignals_cleanup)

lemma outcome_store_if_new:
  "fst (store_if_new s ys st) =
     (if isDuplicate_in (storedSignals st) s then Duplicate
      else if length (storedSignals st) \<ge> AUTO_CLEANUP_THRESHOLD
      then (if length (fst (erase_oldest signalsToRemove 0 ys)) < MAX_SIGNALS
            then Stored (Suc (length (fst (erase_oldest signalsToRemove 0 ys))))
            else StorageFull)
      else (if length (storedSignals st) < MAX_SIGNALS then Stored (Suc (length (storedSignals st)))
            else StorageFull))"
  by (simp add: store_if_new_def Let_def isDuplicate_def storedSignals_cleanup)

lemma after_handle:
  "v \<noteq> 0 \<Longrightarrow> after (handleReceivedSignal v bits proto m1 m2 ys st) =
     (snd (store_if_new (newSignal v bits proto m1 st) ys (st\<lparr>signalCount := signalCount st + 1\<rparr>)))
       \<lparr>lastSignalTime := m2\<rparr>"
  by (simp add: handleReceivedSignal_def split_beta)

lemma outcome_handle:
  "outcome (handleReceivedSignal v bits proto m1 m2 ys st) =
     (if v \<noteq> 0
      then Some (fst (store_if_new (newSignal v bits proto m1 st) ys (st\<lparr>signalCount := signalCount st + 1\<rparr>)))
      else None)"
  by (simp add: handleReceivedSignal_def split_beta)

lemma effects_handle:
  "effects (handleReceivedSignal v bits proto m1 m2 ys st) =
     (if v \<noteq> 0
      then (if buzzerEnabled st then [ReceiveSound] else []) @ (if ledEnabled st then [FlashLED 100 3] else [])
      else [])"
  by (simp add: handleReceivedSignal_def split_beta flags_store_if_new)

lemma duplicate_unchanged:
  "triple s \<in> triple ` set (storedSignals st) \<Longrightarrow> store_if_new s ys st = (Duplicate, st)"
  by (simp add: store_if_new_def isDuplicate_def isDuplicate_in_iff)

lemma triple_newSignal: "triple (newSignal v bits proto m1 st) = (v, bits, proto)"
  by (simp add: triple_def newSignal_def)

section \<open>The example runs\<close>

lemma word_of_nat_eq_small:
  "a < 2 ^ 32 \<Longrightarrow> b < 2 ^ 32 \<Longrightarrow> (word_of_nat a :: 32 word) = word_of_nat b \<longleftrightarrow> a = b"
  by (simp add: word_of_nat_eq_iff take_bit_nat_eq_self)

lemma word_of_nat_less_small:
  "a < 2 ^ 32 \<Longrightarrow> b < 2 ^ 32 \<Longrightarrow> (word_of_nat a :: 32 word) < word_of_nat b \<longleftrightarrow> a < b"
  by (simp add: word_of_nat_less_iff take_bit_nat_eq_self)

lemma sort_outcome_self:
  "sorted_wrt (\<lambda>a b. \<not> cleanup_less b a) xs \<Longrightarrow> sort_outcome xs xs"
  by (simp add: sort_outcome_def)

lemma sorted_sig_no:
  assumes "n \<le> 1000"
  shows "sorted_wrt (\<lambda>a b. \<not> cleanup_less b a) (map (\<lambda>k. sig_no k f) [m..<n])"
proof -
  have ordered: "\<not> cleanup_less (sig_no j f) (sig_no i f)" if "i \<in> set [m..<n]" "j \<in> set [m..<n]" "i < j" for i j
  proof -
    have "1000 * Suc i < (2::nat) ^ 32" "1000 * Suc j < (2::nat) ^ 32"
      using that assms by simp_all
    then have "\<not> (word_of_nat (1000 * Suc j) :: 32 word) < word_of_nat (1000 * Suc i)"
      using that(3) by (simp only: word_of_nat_less_small) simp
    then show ?thesis by (simp add: cleanup_less_def sig_no_def)
  qed
  have "sorted_wrt (\<lambda>i j. \<not> cleanup_less (sig_no j f) (sig_no i f)) [m..<n]"
    by (rule sorted_wrt_mono_rel [where P = "(<)"]) (simp_all add: ordered)
  then show ?thesis by (simp add: sorted_wrt_map)
qed

lemma val_sig_no_inj:
  assumes "i \<le> 1000" "j \<le> 1000" "val (sig_no i f) = val (sig_no j g)"
  shows "i = j"
proof -
  have "Suc i < 2 ^ 32" "Suc j < 2 ^ 32" using assms by simp_all
  then have "Suc i = Suc j"
    using assms(3) by (simp only: sig_no_def RFSignal.simps word_of_nat_eq_small)
  then show ?thesis by simp
qed

lemma not_duplicate_sig_no:
  assumes "n \<le> 1000"
  shows "\<not> isDuplicate_in (map (\<lambda>k. sig_no k f) [0..<n]) (sig_no n g)"
proof
  assume "isDuplicate_in (map (\<lambda>k. sig_no k f) [0..<n]) (sig_no n g)"
  then obtain k where k: "k < n" and "triple (sig_no n g) = triple (sig_no k f)"
    by (auto simp: isDuplicate_in_iff)
  then have "val (sig_no n g) = val (sig_no k f)" by (simp add: triple_def)
  then have "n = k" using assms k by (intro val_sig_no_inj [of n k g f]) simp_all
  with k show False by simp
qed

lemma newSignal_sig_no:
  "signalCount st = word_of_nat n \<Longrightarrow>
     newSignal (word_of_nat (Suc n)) 24 1 (word_of_nat (1000 * Suc n)) st = sig_no n False"
  by (simp add: newSignal_def sig_no_def)

lemma val_sig_no_nonzero: "n < 1000 \<Longrightarrow> (word_of_nat (Suc n) :: 32 word) \<noteq> 0"
  using word_of_nat_eq_small [of "Suc n" 0] by simp

lemma first_boot_state:
  "storedSignals (setup_device Map.empty) = []"
  "signalCount (setup_device Map.empty) = 0"
  "sniffingEnabled (setup_device Map.empty)"
  "buzzerEnabled (setup_device Map.empty)"
  "ledEnabled (setup_device Map.empty)"
  "lastSignalTime (setup_device Map.empty) = 0"
  by (simp_all add: setup_device_def loadStoredSignals_def getInt_def getBool_def)

lemma captured_state:
  "n \<le> 950 \<Longrightarrow>
     storedSignals (captured n) = map (\<lambda>k. sig_no k False) [0..<n] \<and>
     signalCount (captured n) = word_of_nat n \<and> sniffingEnabled (captured n) \<and>
     buzzerEnabled (captured n) \<and> ledEnabled (captured n)"
proof (induction n)
  case 0
  show ?case by (simp add: captured.simps(1) first_boot_state)
next
  case (Suc n)
  let ?st = "captured n"
  let ?v = "word_of_nat (Suc n) :: 32 word"
  from Suc have IH: "storedSignals ?st = map (\<lambda>k. sig_no k False) [0..<n]"
    "signalCount ?st = word_of_nat n" "sniffingEnabled ?st" "buzzerEnabled ?st" "ledEnabled ?st"
    by simp_all
  have n: "n < 950" using Suc.prems by simp
  have v: "?v \<noteq> 0" using n by (intro val_sig_no_nonzero) simp
  have new: "newSignal ?v 24 1 (word_of_nat (1000 * Suc n)) ?st = sig_no n False"
    using IH(2) by (rule newSignal_sig_no)
  have nd: "\<not> isDuplicate_in (storedSignals ?st) (sig_no n False)"
    unfolding IH(1) using n by (intro not_duplicate_sig_no) simp
  have "captured (Suc n) =
        after (handleReceivedSignal ?v 24 1 (word_of_nat (1000 * Suc n)) (word_of_nat (1000 * Suc n + 820))
                 (storedSignals ?st) ?st)"
    using IH(3) by (simp only: captured.simps loop_body_def simp_thms if_True)
  also have "\<dots> =
        (snd (store_if_new (sig_no n False) (storedSignals ?st) (?st\<lparr>signalCount := signalCount ?st + 1\<rparr>)))
          \<lparr>lastSignalTime := word_of_nat (1000 * Suc n + 820)\<rparr>"
    by (simp only: after_handle [OF v] new)
  finally have "captured (Suc n) =
        (snd (store_if_new (sig_no n False) (storedSignals ?st) (?st\<lparr>signalCount := signalCount ?st + 1\<rparr>)))
          \<lparr>lastSignalTime := word_of_nat (1000 * Suc n + 820)\<rparr>" .
  moreover have "storedSignals (snd (store_if_new (sig_no n False) (storedSignals ?st) (?st\<lparr>signalCount := signalCount ?st + 1\<rparr>)))
       = storedSignals ?st @ [sig_no n False]"
    using nd n IH(1) by (simp add: storedSignals_store_if_new AUTO_CLEANUP_THRESHOLD_def MAX_SIGNALS_def)
  ultimately show ?case
    using IH by (simp add: flags_store_if_new)
qed

lemma reachable_captured: "n \<le> 950 \<Longrightarrow> reachable (captured n)"
proof (induction n)
  case 0
  show ?case by (simp add: captured.simps(1) reachable.first_boot)
next
  case (Suc n)
  then have r: "reachable (captured n)" by simp
  have "storedSignals (captured n) = map (\<lambda>k. sig_no k False) [0..<n]"
    using Suc.prems captured_state [of n] by simp
  moreover have "sorted_wrt (\<lambda>a b. \<not> cleanup_less b a) (map (\<lambda>k. sig_no k False) [0..<n])"
    using Suc.prems by (intro sorted_sig_no) simp
  ultimately have "sort_outcome (storedSignals (captured n)) (storedSignals (captured n))"
    by (simp add: sort_outcome_self)
  with r show ?case
    unfolding captured.simps by (rule reachable.tick)
qed

lemma captured_one: "storedSignals (captured (Suc 0)) = [sig_no 0 False]"
  using captured_state [of "Suc 0"] by simp

section \<open>Counting what a cleanup removes\<close>

lemma mset_nonfav_arranged:
  "mset ys = mset xs \<Longrightarrow> length (filter (\<lambda>s. \<not> isFavorite s) ys) = length (filter (\<lambda>s. \<not> isFavorite s) xs)"
proof -
  assume "mset ys = mset xs"
  then have "mset (filter (\<lambda>s. \<not> isFavorite s) ys) = mset (filter (\<lambda>s. \<not> isFavorite s) xs)"
    by simp
  then show ?thesis by (rule mset_eq_length)
qed

text \<open>What the erase loop takes out of a sorted arrangement: its first non-favorites.\<close>

lemma mset_erase_oldest_sorted:
  assumes "sorted_wrt (\<lambda>a b. \<not> cleanup_less b a) ys"
  shows "mset ys = mset (take q (filter (\<lambda>s. \<not> isFavorite s) ys)) + mset (fst (erase_oldest q 0 ys))"
proof -
  let ?nf = "filter (\<lambda>s. \<not> isFavorite s) ys"
  have "mset ys = mset (?nf @ filter isFavorite ys)"
    using sorted_split [OF assms] by simp
  also have "\<dots> = mset (take q ?nf @ drop q ?nf @ filter isFavorite ys)"
    by (simp only: append_assoc [symmetric] append_take_drop_id)
  also have "\<dots> = mset (take q ?nf) + mset (fst (erase_oldest q 0 ys))"
    by (simp only: erase_oldest_sorted [OF assms] mset_append)
  finally show ?thesis .
qed

lemma removed_older_than_kept:
  assumes "sorted_wrt (\<lambda>a b. \<not> cleanup_less b a) ys"
    and "distinct (map timestamp (filter (\<lambda>s. \<not> isFavorite s) ys))"
    and "r \<in> set (take q (filter (\<lambda>s. \<not> isFavorite s) ys))"
    and "s \<in> set (fst (erase_oldest q 0 ys))" and "\<not> isFavorite s"
  shows "timestamp r < timestamp s"
proof -
  let ?nf = "filter (\<lambda>s. \<not> isFavorite s) ys"
  have "sorted_wrt (<) (map timestamp ?nf)"
    using sorted_nonfav_timestamps [OF assms(1)] assms(2) by (simp add: strict_sorted_iff)
  then have "sorted_wrt (\<lambda>a b. timestamp a < timestamp b) (take q ?nf @ drop q ?nf)"
    by (simp add: sorted_wrt_map)
  then have "\<forall>a \<in> set (take q ?nf). \<forall>b \<in> set (drop q ?nf). timestamp a < timestamp b"
    by (simp only: sorted_wrt_append) simp
  moreover have "s \<in> set (drop q ?nf)"
    using assms(4,5) by (auto simp: erase_oldest_sorted [OF assms(1)])
  ultimately show ?thesis using assms(3) by blast
qed

lemma signalsToRemove_200: "signalsToRemove = 200"
  by (simp add: signalsToRemove_def MAX_SIGNALS_def)

lemma length_after_cleanup:
  assumes "sort_outcome (storedSignals st) ys"
  shows "length (storedSignals (performAutoCleanup ys st)) =
         length (storedSignals st) - min 200 (length (filter (\<lambda>s. \<not> isFavorite s) (storedSignals st)))"
proof -
  have m: "mset ys = mset (storedSignals st)"
    using assms by (simp add: sort_outcome_def)
  have "length ys = length (storedSignals st)" using m by (rule mset_eq_length)
  moreover have "length (filter (\<lambda>s. \<not> isFavorite s) ys) = length (filter (\<lambda>s. \<not> isFavorite s) (storedSignals st))"
    using m by (rule mset_nonfav_arranged)
  ultimately show ?thesis
    by (simp add: storedSignals_cleanup erase_oldest_length signalsToRemove_200)
qed

lemma nonfav_after_cleanup:
  assumes "sort_outcome (storedSignals st) ys"
  shows "length (filter (\<lambda>s. \<not> isFavorite s) (storedSignals (performAutoCleanup ys st))) =
         length (filter (\<lambda>s. \<not> isFavorite s) (storedSignals st)) - 200"
proof -
  have "mset ys = mset (storedSignals st)"
    using assms by (simp add: sort_outcome_def)
  then have "length (filter (\<lambda>s. \<not> isFavorite s) ys) = length (filter (\<lambda>s. \<not> isFavorite s) (storedSignals st))"
    by (rule mset_nonfav_arranged)
  then show ?thesis
    by (simp add: storedSignals_cleanup erase_oldest_nonfav signalsToRemove_200)
qed

lemma api_cleanup_count:
  assumes "sort_outcome (storedSignals st) ys"
  shows "fst (api_cleanup ys st) = min 200 (length (filter (\<lambda>s. \<not> isFavorite s) (storedSignals st)))"
proof -
  have "length (filter (\<lambda>s. \<not> isFavorite s) (storedSignals st)) \<le> length (storedSignals st)"
    by simp
  then show ?thesis
    unfolding api_cleanup_def Let_def fst_conv length_after_cleanup [OF assms] by arith
qed

text \<open>Lines 148-161 on an archive of 950 signals none of which is a favorite.\<close>

lemma store_at_threshold:
  assumes "length (storedSignals st) = 950"
    and "\<forall>s \<in> set (storedSignals st). \<not> isFavorite s"
    and "sort_outcome (storedSignals st) ys"
    and "v \<noteq> 0" and "(v, bits, proto) \<notin> triple ` set (storedSignals st)"
  shows "length (storedSignals (performAutoCleanup ys st)) = 750 \<and>
         outcome (handleReceivedSignal v bits proto m1 m2 ys st) = Some (Stored 751) \<and>
         length (storedSignals (after (handleReceivedSignal v bits proto m1 m2 ys st))) = 751"
proof -
  let ?st0 = "st\<lparr>signalCount := signalCount st + 1\<rparr>"
  let ?s = "newSignal v bits proto m1 st"
  have nf: "filter (\<lambda>s. \<not> isFavorite s) (storedSignals st) = storedSignals st"
    using assms(2) by (simp add: filter_id_conv)
  have c1: "length (storedSignals (performAutoCleanup ys st)) = 750"
    using length_after_cleanup [OF assms(3)] by (simp add: nf assms(1))
  then have len: "length (fst (erase_oldest signalsToRemove 0 ys)) = 750"
    by (simp add: storedSignals_cleanup)
  have nd: "\<not> isDuplicate_in (storedSignals ?st0) ?s"
    using assms(5) by (simp add: isDuplicate_in_iff triple_newSignal)
  have c2: "outcome (handleReceivedSignal v bits proto m1 m2 ys st) = Some (Stored 751)"
    using assms(1,4) nd
    by (simp add: outcome_handle outcome_store_if_new len AUTO_CLEANUP_THRESHOLD_def MAX_SIGNALS_def)
  have c3: "length (storedSignals (after (handleReceivedSignal v bits proto m1 m2 ys st))) = 751"
    using assms(1,4) nd
    by (simp add: after_handle storedSignals_store_if_new len AUTO_CLEANUP_THRESHOLD_def MAX_SIGNALS_def)
  show ?thesis by (intro conjI) (rule c1 c2 c3)+
qed

text \<open>The cleanup on an arrangement without favorites erases its first 200 signals, which are the oldest.\<close>

lemma cleanup_without_favorites:
  assumes "filter isFavorite (storedSignals st) = []"
    and "sort_outcome (storedSignals st) ys"
  shows "storedSignals (performAutoCleanup ys st) = drop 200 ys"
    and "mset (take 200 ys) + mset (drop 200 ys) = mset (storedSignals st)"
    and "\<forall>r \<in> set (take 200 ys). \<forall>s \<in> set (drop 200 ys). timestamp r \<le> timestamp s"
proof -
  have m: "mset ys = mset (storedSignals st)" and srt: "sorted_wrt (\<lambda>a b. \<not> cleanup_less b a) ys"
    using assms(2) by (simp_all add: sort_outcome_def)
  have "set ys = set (storedSignals st)" using m by (rule mset_eq_setD)
  then have nofav: "\<forall>s \<in> set ys. \<not> isFavorite s"
    using assms(1) by (simp add: filter_empty_conv)
  then have nf: "filter (\<lambda>s. \<not> isFavorite s) ys = ys" and fv: "filter isFavorite ys = []"
    by (simp_all add: filter_id_conv filter_empty_conv)
  show "storedSignals (performAutoCleanup ys st) = drop 200 ys"
    using erase_oldest_sorted [OF srt, of 200]
    by (simp add: storedSignals_cleanup signalsToRemove_200 nf fv)
  have "mset (take 200 ys @ drop 200 ys) = mset (storedSignals st)"
    using m by (simp only: append_take_drop_id)
  then show "mset (take 200 ys) + mset (drop 200 ys) = mset (storedSignals st)"
    by (simp only: mset_append)
  have "sorted (map timestamp ys)"
    using sorted_nonfav_timestamps [OF srt] by (simp only: nf)
  then have "sorted (map timestamp (take 200 ys) @ map timestamp (drop 200 ys))"
    by (simp only: map_append [symmetric] append_take_drop_id)
  then show "\<forall>r \<in> set (take 200 ys). \<forall>s \<in> set (drop 200 ys). timestamp r \<le> timestamp s"
    by (simp add: sorted_append)
qed

text \<open>Lines 148-161 on such an archive of 950 signals: the new signal goes behind the 750 kept.\<close>

lemma append_at_threshold:
  assumes "length (storedSignals st) = 950"
    and "filter isFavorite (storedSignals st) = []"
    and "sort_outcome (storedSignals st) ys"
    and "v \<noteq> 0" and "(v, bits, proto) \<notin> triple ` set (storedSignals st)"
  shows "storedSignals (after (handleReceivedSignal v bits proto m1 m2 ys st)) =
           drop 200 ys @ [newSignal v bits proto m1 st]"
proof -
  let ?st0 = "st\<lparr>signalCount := signalCount st + 1\<rparr>"
  have "length ys = 950"
    using assms(1,3) by (auto simp: sort_outcome_def dest: mset_eq_length)
  moreover have e: "fst (erase_oldest signalsToRemove 0 ys) = drop 200 ys"
    using cleanup_without_favorites(1) [OF assms(2,3)] by (simp add: storedSignals_cleanup)
  ultimately have len: "length (fst (erase_oldest signalsToRemove 0 ys)) = 750"
    by simp
  have nd: "\<not> isDuplicate_in (storedSignals ?st0) (newSignal v bits proto m1 st)"
    using assms(5) by (simp add: isDuplicate_in_iff triple_newSignal)
  show ?thesis
    using assms(1,4) nd len
    by (simp add: after_handle storedSignals_store_if_new e AUTO_CLEANUP_THRESHOLD_def MAX_SIGNALS_def)
qed

lemma captured_950: "storedSignals (captured 950) = map (\<lambda>k. sig_no k False) [0..<950]"
  using captured_state [of 950] by simp

lemma nonfav_captured_950: "\<forall>s \<in> set (storedSignals (captured 950)). \<not> isFavorite s"
  by (simp add: captured_950 sig_no_def)

lemma filter_nonfav_captured_950:
  "filter (\<lambda>s. \<not> isFavorite s) (storedSignals (captured 950)) = storedSignals (captured 950)"
  using nonfav_captured_950 by (simp add: filter_id_conv)

lemma sort_outcome_captured_950:
  "sort_outcome (storedSignals (captured 950)) (storedSignals (captured 950))"
  unfolding captured_950 by (intro sort_outcome_self sorted_sig_no) simp

lemma triple_sig_no: "triple (sig_no k f) = (word_of_nat (Suc k), 24, 1)"
  by (simp add: triple_def sig_no_def)

lemma new_code_951: "(951, 24, 1) \<notin> triple ` set (storedSignals (captured 950))"
proof -
  have "\<not> isDuplicate_in (map (\<lambda>k. sig_no k False) [0..<950]) (sig_no 950 False)"
    by (rule not_duplicate_sig_no) simp
  then show ?thesis
    by (simp only: isDuplicate_in_iff captured_950 triple_sig_no) simp
qed

lemma cleaned_captured_950:
  "storedSignals (performAutoCleanup (storedSignals (captured 950)) (captured 950)) =
     drop 200 (storedSignals (captured 950))"
proof -
  have "sorted_wrt (\<lambda>a b. \<not> cleanup_less b a) (storedSignals (captured 950))"
    using sort_outcome_captured_950 by (simp add: sort_outcome_def)
  then have "fst (erase_oldest 200 0 (storedSignals (captured 950))) =
      drop 200 (filter (\<lambda>s. \<not> isFavorite s) (storedSignals (captured 950))) @
      filter isFavorite (storedSignals (captured 950))"
    by (rule erase_oldest_sorted)
  moreover have "filter isFavorite (storedSignals (captured 950)) = []"
    using nonfav_captured_950 by (simp add: filter_empty_conv)
  ultimately show ?thesis
    by (simp add: storedSignals_cleanup signalsToRemove_200 filter_nonfav_captured_950)
qed

lemma sort_outcome_cleaned_950:
  "sort_outcome (drop 200 (storedSignals (captured 950))) (drop 200 (storedSignals (captured 950)))"
proof -
  have "sorted_wrt (\<lambda>a b. \<not> cleanup_less b a) (storedSignals (captured 950))"
    using sort_outcome_captured_950 by (simp add: sort_outcome_def)
  then have "sorted_wrt (\<lambda>a b. \<not> cleanup_less b a) (drop 200 (storedSignals (captured 950)))"
    by (rule sorted_wrt_drop)
  then show ?thesis by (rule sort_outcome_self)
qed

lemma favorite_first: "api_favorite 0 True (captured 950) = Inr one_favorite"
  by (simp add: one_favorite_def api_favorite_def valid_id_def captured_950)

lemma reachable_one_favorite: "reachable one_favorite"
proof -
  have "reachable (captured 950)" by (rule reachable_captured) simp
  then show ?thesis using favorite_first by (rule reachable.favorite)
qed

lemma one_favorite_archive:
  "storedSignals one_favorite = sig_no 0 True # map (\<lambda>k. sig_no k False) [1..<950]"
proof -
  have u: "[0..<950] = 0 # [Suc 0..<950]"
    by (rule upt_conv_Cons) simp
  have "(sig_no 0 False)\<lparr>isFavorite := True\<rparr> = sig_no 0 True"
    by (simp add: sig_no_def)
  then show ?thesis
    by (simp add: one_favorite_def api_favorite_def valid_id_def captured_950 u)
qed

lemma nonfav_one_favorite:
  "filter (\<lambda>s. \<not> isFavorite s) (storedSignals one_favorite) = map (\<lambda>k. sig_no k False) [1..<950]"
  by (simp add: one_favorite_archive sig_no_def filter_map o_def)

lemma sort_outcome_one_favorite:
  "sort_outcome (storedSignals one_favorite) one_favorite_arranged"
proof -
  have "sorted_wrt (\<lambda>a b. \<not> cleanup_less b a) (map (\<lambda>k. sig_no k False) [1..<950])"
    by (rule sorted_sig_no) simp
  moreover have "\<not> cleanup_less (sig_no 0 True) (sig_no k False)" for k
    by (simp add: cleanup_less_def sig_no_def)
  ultimately have "sorted_wrt (\<lambda>a b. \<not> cleanup_less b a) one_favorite_arranged"
    by (simp add: one_favorite_arranged_def sorted_wrt_append)
  then show ?thesis
    by (simp add: sort_outcome_def one_favorite_archive one_favorite_arranged_def)
qed

lemma distinct_timestamps_sig_no:
  assumes "n \<le> 1000"
  shows "distinct (map timestamp (map (\<lambda>k. sig_no k f) [m..<n]))"
proof -
  have "inj_on (\<lambda>k. timestamp (sig_no k f)) (set [m..<n])"
  proof (rule inj_onI)
    fix i j
    assume "i \<in> set [m..<n]" "j \<in> set [m..<n]"
      and eq: "timestamp (sig_no i f) = timestamp (sig_no j f)"
    then have "1000 * Suc i < (2::nat) ^ 32" "1000 * Suc j < (2::nat) ^ 32"
      using assms by simp_all
    then have "1000 * Suc i = 1000 * Suc j"
      using eq by (simp only: sig_no_def RFSignal.simps word_of_nat_eq_small)
    then show "i = j" by simp
  qed
  then show ?thesis by (simp add: distinct_map o_def)
qed

lemma cleaned_one_favorite:
  "storedSignals (performAutoCleanup one_favorite_arranged one_favorite) =
     map (\<lambda>k. sig_no k False) [201..<950] @ [sig_no 0 True]"
proof -
  have "fst (erase_oldest 200 0 (map (\<lambda>k. sig_no k False) [1..<950] @ [sig_no 0 True])) =
        drop (200 - 0) (map (\<lambda>k. sig_no k False) [1..<950]) @ [sig_no 0 True]"
    by (rule erase_oldest_append) (simp_all add: sig_no_def)
  then show ?thesis
    by (simp add: storedSignals_cleanup signalsToRemove_200 one_favorite_arranged_def drop_map)
qed

section \<open>An archive full of favorites\<close>

lemma capture_among_favorites:
  assumes "sniffingEnabled st" and "v \<noteq> 0"
    and "\<not> isDuplicate_in (storedSignals st) (newSignal v bits proto m1 st)"
    and "\<forall>s \<in> set (storedSignals st). isFavorite s"
    and "length (storedSignals st) < MAX_SIGNALS"
  shows "storedSignals (after (loop_body True v bits proto m1 m2 (storedSignals st) st)) =
           storedSignals st @ [newSignal v bits proto m1 st]"
    and "signalCount (after (loop_body True v bits proto m1 m2 (storedSignals st) st)) = signalCount st + 1"
    and "sniffingEnabled (after (loop_body True v bits proto m1 m2 (storedSignals st) st))"
    and "lastSignalTime (after (loop_body True v bits proto m1 m2 (storedSignals st) st)) = m2"
proof -
  let ?st0 = "st\<lparr>signalCount := signalCount st + 1\<rparr>"
  have a: "after (loop_body True v bits proto m1 m2 (storedSignals st) st) =
      (snd (store_if_new (newSignal v bits proto m1 st) (storedSignals st) ?st0))\<lparr>lastSignalTime := m2\<rparr>"
    using assms(1,2) by (simp add: loop_body_def after_handle)
  have e: "fst (erase_oldest signalsToRemove 0 (storedSignals st)) = storedSignals st"
    using assms(4) by (rule erase_oldest_all_fav)
  show "storedSignals (after (loop_body True v bits proto m1 m2 (storedSignals st) st)) =
           storedSignals st @ [newSignal v bits proto m1 st]"
    using assms(3,5) by (simp add: a storedSignals_store_if_new e)
  show "signalCount (after (loop_body True v bits proto m1 m2 (storedSignals st) st)) = signalCount st + 1"
    by (simp add: a flags_store_if_new)
  show "sniffingEnabled (after (loop_body True v bits proto m1 m2 (storedSignals st) st))"
    using assms(1) by (simp add: a flags_store_if_new)
  show "lastSignalTime (after (loop_body True v bits proto m1 m2 (storedSignals st) st)) = m2"
    by (simp add: a)
qed

lemma favorite_last:
  assumes "storedSignals st = xs @ [s]" and "length xs < 2 ^ 31"
  shows "api_favorite (word_of_nat (length xs)) True st =
         Inr (saveStoredSignals (st\<lparr>storedSignals := xs @ [s\<lparr>isFavorite := True\<rparr>]\<rparr>))"
proof -
  have i: "nat (sint (word_of_nat (length xs) :: 32 word)) = length xs"
    using assms(2) by (simp add: sint_word_of_nat_length)
  have "0 \<le> sint (word_of_nat (length xs) :: 32 word)"
    using assms(2) by (simp add: sint_word_of_nat_length)
  then have v: "valid_id (word_of_nat (length xs)) st"
    by (simp add: valid_id_def i assms(1))
  show ?thesis
    by (simp add: api_favorite_def v i assms(1))
qed

lemma favorited_state:
  "n \<le> 999 \<Longrightarrow>
     storedSignals (favorited n) = map (\<lambda>k. sig_no k True) [0..<n] \<and>
     signalCount (favorited n) = word_of_nat n \<and> sniffingEnabled (favorited n) \<and>
     reachable (favorited n)"
proof (induction n)
  case 0
  show ?case by (simp add: favorited.simps(1) first_boot_state reachable.first_boot)
next
  case (Suc n)
  let ?st = "favorited n"
  let ?F = "map (\<lambda>k. sig_no k True) [0..<n]"
  let ?v = "word_of_nat (Suc n) :: 32 word"
  let ?m1 = "word_of_nat (1000 * Suc n) :: 32 word"
  let ?m2 = "word_of_nat (1000 * Suc n + 820) :: 32 word"
  let ?st1 = "after (loop_body True ?v 24 1 ?m1 ?m2 (storedSignals ?st) ?st)"
  from Suc have IH: "storedSignals ?st = ?F" "signalCount ?st = word_of_nat n" "sniffingEnabled ?st"
    "reachable ?st"
    by simp_all
  have n: "n < 999" using Suc.prems by simp
  have v: "?v \<noteq> 0" using n by (intro val_sig_no_nonzero) simp
  have new: "newSignal ?v 24 1 ?m1 ?st = sig_no n False"
    using IH(2) by (rule newSignal_sig_no)
  have nd: "\<not> isDuplicate_in (storedSignals ?st) (newSignal ?v 24 1 ?m1 ?st)"
    unfolding IH(1) new using n by (intro not_duplicate_sig_no) simp
  have fav: "\<forall>s \<in> set (storedSignals ?st). isFavorite s"
    by (simp add: IH(1) sig_no_def)
  have room: "length (storedSignals ?st) < MAX_SIGNALS"
    using n by (simp add: IH(1) MAX_SIGNALS_def)
  note c = capture_among_favorites [OF IH(3) v nd fav room, of ?m2]
  have s1: "storedSignals ?st1 = ?F @ [sig_no n False]"
    using c(1) by (simp only: new IH(1))
  have so: "sort_outcome (storedSignals ?st) (storedSignals ?st)"
    unfolding IH(1) using n by (intro sort_outcome_self sorted_sig_no) simp
  have r1: "reachable ?st1"
    using IH(4) so by (rule reachable.tick)
  have "api_favorite (word_of_nat (length ?F)) True ?st1 =
        Inr (saveStoredSignals (?st1\<lparr>storedSignals := ?F @ [(sig_no n False)\<lparr>isFavorite := True\<rparr>]\<rparr>))"
    using s1 by (rule favorite_last) (use n in simp)
  then have f: "api_favorite (word_of_nat n) True ?st1 =
        Inr (saveStoredSignals (?st1\<lparr>storedSignals := ?F @ [sig_no n True]\<rparr>))"
    by (simp add: sig_no_def)
  have eq: "favorited (Suc n) = saveStoredSignals (?st1\<lparr>storedSignals := ?F @ [sig_no n True]\<rparr>)"
    by (simp only: favorited.simps Let_def f sum.case)
  have "reachable (favorited (Suc n))"
    unfolding eq using r1 f by (rule reachable.favorite)
  moreover have "storedSignals (favorited (Suc n)) = map (\<lambda>k. sig_no k True) [0..<Suc n]"
    by (simp add: eq)
  moreover have "signalCount (favorited (Suc n)) = word_of_nat (Suc n)"
    unfolding eq using c(2) IH(2) by simp
  moreover have "sniffingEnabled (favorited (Suc n))"
    unfolding eq using c(3) by simp
  ultimately show ?case by simp
qed

lemma storedSignals_setup_device:
  assumes "archive_inv st"
  shows "storedSignals (setup_device (preferences st)) = storedSignals st"
proof -
  let ?st0 = "\<lparr>sniffingEnabled = getBool (preferences st) ''sniffingEnabled'' True,
        buzzerEnabled = getBool (preferences st) ''buzzerEnabled'' True,
        ledEnabled = getBool (preferences st) ''ledEnabled'' True,
        lastSignalTime = 0, signalCount = 0, storedSignals = [], preferences = preferences st\<rparr>"
  have "storedSignals (loadStoredSignals (?st0\<lparr>storedSignals := [], preferences := preferences st\<rparr>)) = storedSignals st"
    using assms by (intro load_in_sync) (simp_all add: archive_inv_def)
  then show ?thesis by (simp add: setup_device_def)
qed

lemma favorited_999:
  "storedSignals (favorited 999) = map (\<lambda>k. sig_no k True) [0..<999]" "reachable (favorited 999)"
  using favorited_state [of 999] by simp_all

lemma rebooted_state:
  "storedSignals rebooted = map (\<lambda>k. sig_no k True) [0..<999]"
  "sniffingEnabled rebooted" "reachable rebooted"
proof -
  have inv: "archive_inv (favorited 999)"
    using favorited_999(2) by (rule archive_inv_reachable)
  show "storedSignals rebooted = map (\<lambda>k. sig_no k True) [0..<999]"
    using storedSignals_setup_device [OF inv] by (simp add: rebooted_def api_sniffing_def favorited_999(1))
  show "sniffingEnabled rebooted"
    by (simp add: rebooted_def api_sniffing_def)
  have "reachable (setup_device (preferences (favorited 999)))"
    using favorited_999(2) by (rule reachable.reboot)
  then show "reachable rebooted"
    unfolding rebooted_def by (rule reachable.sniffing)
qed

lemma val_not_stored:
  assumes "n \<le> 1000" and "1000 < c" and "c < 2 ^ 32"
  shows "(word_of_nat c, b, p) \<notin> triple ` set (map (\<lambda>k. sig_no k f) [0..<n])"
proof
  assume "(word_of_nat c, b, p) \<in> triple ` set (map (\<lambda>k. sig_no k f) [0..<n])"
  then obtain k where k: "k < n" and "(word_of_nat c :: 32 word) = word_of_nat (Suc k)"
    by (auto simp: triple_sig_no)
  moreover have "Suc k < 2 ^ 32" using k assms(1) by simp
  ultimately have "c = Suc k" using assms(3) by (simp only: word_of_nat_eq_small)
  with k assms(1,2) show False by simp
qed

lemma triple_late_sig: "triple late_sig = (5000, 24, 1)"
  by (simp add: late_sig_def triple_def newSignal_def)

lemma late_sig_fields: "isFavorite late_sig" "timestamp late_sig = 500" "val late_sig = 5000"
  by (simp_all add: late_sig_def newSignal_def)

lemma full_state_archive:
  "storedSignals full_state = map (\<lambda>k. sig_no k True) [0..<999] @ [late_sig]"
  "reachable full_state" "lastSignalTime full_state = 1320"
proof -
  let ?F = "map (\<lambda>k. sig_no k True) [0..<999]"
  let ?st1 = "after (loop_body True 5000 24 1 500 1320 (storedSignals rebooted) rebooted)"
  have "(word_of_nat 5000, 24, 1) \<notin> triple ` set ?F"
    by (rule val_not_stored) simp_all
  then have nd: "\<not> isDuplicate_in (storedSignals rebooted) (newSignal 5000 24 1 500 rebooted)"
    by (simp add: isDuplicate_in_iff triple_newSignal rebooted_state(1))
  have fav: "\<forall>s \<in> set (storedSignals rebooted). isFavorite s"
    by (simp add: rebooted_state(1) sig_no_def)
  have room: "length (storedSignals rebooted) < MAX_SIGNALS"
    by (simp add: rebooted_state(1) MAX_SIGNALS_def)
  have v: "(5000 :: uint32) \<noteq> 0" by simp
  note c = capture_among_favorites [OF rebooted_state(2) v nd fav room, of 1320]
  have s1: "storedSignals ?st1 = ?F @ [newSignal 5000 24 1 500 rebooted]"
    using c(1) by (simp only: rebooted_state(1))
  have so: "sort_outcome (storedSignals rebooted) (storedSignals rebooted)"
    unfolding rebooted_state(1) by (intro sort_outcome_self sorted_sig_no) simp
  have r1: "reachable ?st1"
    using rebooted_state(3) so by (rule reachable.tick)
  have "api_favorite (word_of_nat (length ?F)) True ?st1 =
        Inr (saveStoredSignals (?st1\<lparr>storedSignals := ?F @ [(newSignal 5000 24 1 500 rebooted)\<lparr>isFavorite := True\<rparr>]\<rparr>))"
    using s1 by (rule favorite_last) simp
  then have f: "api_favorite 999 True ?st1 =
        Inr (saveStoredSignals (?st1\<lparr>storedSignals := ?F @ [late_sig]\<rparr>))"
    by (simp add: late_sig_def)
  have eq: "full_state = saveStoredSignals (?st1\<lparr>storedSignals := ?F @ [late_sig]\<rparr>)"
    by (simp only: full_state_def Let_def f sum.case)
  show "storedSignals full_state = ?F @ [late_sig]"
    by (simp add: eq)
  show "reachable full_state"
    unfolding eq using r1 f by (rule reachable.favorite)
  show "lastSignalTime full_state = 1320"
    unfolding eq using c(4) by simp
qed

lemma late_before_all:
  assumes "k < 1000"
  shows "\<not> cleanup_less (sig_no k True) late_sig" and "cleanup_less late_sig (sig_no k True)"
proof -
  have "1000 * Suc k < (2::nat) ^ 32" using assms by simp
  then have "(word_of_nat 500 :: 32 word) < word_of_nat (1000 * Suc k) \<longleftrightarrow> 500 < 1000 * Suc k"
    by (intro word_of_nat_less_small) simp_all
  then have "(word_of_nat 500 :: 32 word) < word_of_nat (1000 * Suc k)"
    by simp
  then have lt: "(500 :: 32 word) < word_of_nat (1000 * Suc k)" by simp
  then have "\<not> (word_of_nat (1000 * Suc k) :: 32 word) < 500" by simp
  then show "\<not> cleanup_less (sig_no k True) late_sig"
    by (simp add: cleanup_less_def sig_no_def late_sig_fields)
  show "cleanup_less late_sig (sig_no k True)"
    using lt by (simp add: cleanup_less_def sig_no_def late_sig_fields)
qed

lemma sort_outcome_full:
  "sort_outcome (storedSignals full_state) full_arranged"
proof -
  have "sorted_wrt (\<lambda>a b. \<not> cleanup_less b a) (map (\<lambda>k. sig_no k True) [0..<999])"
    by (rule sorted_sig_no) simp
  then have "sorted_wrt (\<lambda>a b. \<not> cleanup_less b a) full_arranged"
    by (simp add: full_arranged_def late_before_all(1))
  then show ?thesis
    by (simp add: sort_outcome_def full_state_archive(1) full_arranged_def)
qed

lemma full_state_not_sorted:
  "\<not> sort_outcome (storedSignals full_state) (storedSignals full_state)"
proof
  assume "sort_outcome (storedSignals full_state) (storedSignals full_state)"
  then have "sorted_wrt (\<lambda>a b. \<not> cleanup_less b a) (map (\<lambda>k. sig_no k True) [0..<999] @ [late_sig])"
    by (simp add: sort_outcome_def full_state_archive(1))
  then have "\<forall>x \<in> set (map (\<lambda>k. sig_no k True) [0..<999]). \<not> cleanup_less late_sig x"
    by (simp add: sorted_wrt_append)
  then have "\<not> cleanup_less late_sig (sig_no 0 True)" by simp
  then show False using late_before_all(2) [of 0] by simp
qed

lemma full_arranged_differs: "full_arranged \<noteq> storedSignals full_state"
proof
  assume "full_arranged = storedSignals full_state"
  then have "sort_outcome (storedSignals full_state) (storedSignals full_state)"
    using sort_outcome_full by simp
  then show False using full_state_not_sorted by simp
qed

lemma full_state_counts:
  "length (storedSignals full_state) = 1000"
  "filter (\<lambda>s. \<not> isFavorite s) (storedSignals full_state) = []"
  by (simp_all add: full_state_archive(1) late_sig_fields sig_no_def filter_empty_conv)

lemma new_code_7777: "(7777, 24, 1) \<notin> triple ` set (storedSignals full_state)"
proof -
  have "(word_of_nat 7777, 24, 1) \<notin> triple ` set (map (\<lambda>k. sig_no k True) [0..<999])"
    by (rule val_not_stored) simp_all
  then show ?thesis
    by (simp add: full_state_archive(1) triple_late_sig)
qed

text \<open>Lines 148-162 on an archive that is full of favorites.\<close>

lemma storage_full_among_favorites:
  assumes "length (storedSignals st) = MAX_SIGNALS"
    and "filter (\<lambda>s. \<not> isFavorite s) (storedSignals st) = []"
    and "sort_outcome (storedSignals st) ys"
    and "v \<noteq> 0" and "(v, bits, proto) \<notin> triple ` set (storedSignals st)"
  shows "outcome (handleReceivedSignal v bits proto m1 m2 ys st) = Some StorageFull"
    and "storedSignals (after (handleReceivedSignal v bits proto m1 m2 ys st)) = ys"
    and "lastSignalTime (after (handleReceivedSignal v bits proto m1 m2 ys st)) = m2"
proof -
  let ?st0 = "st\<lparr>signalCount := signalCount st + 1\<rparr>"
  have "set ys = set (storedSignals st)"
    using assms(3) by (auto simp: sort_outcome_def dest: mset_eq_setD)
  then have "\<forall>s \<in> set ys. isFavorite s"
    using assms(2) by (simp add: filter_empty_conv)
  then have e: "fst (erase_oldest signalsToRemove 0 ys) = ys"
    by (rule erase_oldest_all_fav)
  have len: "length ys = MAX_SIGNALS"
    using assms(1,3) by (auto simp: sort_outcome_def dest: mset_eq_length)
  have nd: "\<not> isDuplicate_in (storedSignals ?st0) (newSignal v bits proto m1 st)"
    using assms(5) by (simp add: isDuplicate_in_iff triple_newSignal)
  show "outcome (handleReceivedSignal v bits proto m1 m2 ys st) = Some StorageFull"
    using assms(1,4) nd
    by (simp add: outcome_handle outcome_store_if_new e len AUTO_CLEANUP_THRESHOLD_def MAX_SIGNALS_def)
  show "storedSignals (after (handleReceivedSignal v bits proto m1 m2 ys st)) = ys"
    using assms(1,4) nd
    by (simp add: after_handle storedSignals_store_if_new e len AUTO_CLEANUP_THRESHOLD_def MAX_SIGNALS_def)
  show "lastSignalTime (after (handleReceivedSignal v bits proto m1 m2 ys st)) = m2"
    using assms(4) by (simp add: after_handle)
qed

text \<open>When lines 148-162 answer \<open>StorageFull\<close> on an archive within its bound.\<close>

lemma storage_full_only_among_favorites:
  assumes "length (storedSignals st) \<le> MAX_SIGNALS"
    and "sort_outcome (storedSignals st) ys"
    and "outcome (handleReceivedSignal v bits proto m1 m2 ys st) = Some StorageFull"
  shows "length (storedSignals st) = MAX_SIGNALS"
    and "filter (\<lambda>s. \<not> isFavorite s) (storedSignals st) = []"
    and "storedSignals (after (handleReceivedSignal v bits proto m1 m2 ys st)) = ys"
proof -
  let ?st0 = "st\<lparr>signalCount := signalCount st + 1\<rparr>"
  let ?s = "newSignal v bits proto m1 st"
  let ?N = "length (filter (\<lambda>s. \<not> isFavorite s) (storedSignals st))"
  have v: "v \<noteq> 0"
    using assms(3) by (auto simp: outcome_handle split: if_splits)
  then have o: "fst (store_if_new ?s ys ?st0) = StorageFull"
    using assms(3) by (simp add: outcome_handle)
  have nd: "\<not> isDuplicate_in (storedSignals st) ?s"
    using o by (auto simp: outcome_store_if_new split: if_splits)
  have big: "length (storedSignals st) \<ge> AUTO_CLEANUP_THRESHOLD"
    using o nd assms(1) by (auto simp: outcome_store_if_new AUTO_CLEANUP_THRESHOLD_def MAX_SIGNALS_def split: if_splits)
  then have full: "\<not> length (fst (erase_oldest signalsToRemove 0 ys)) < MAX_SIGNALS"
    using o nd by (auto simp: outcome_store_if_new split: if_splits)
  have "length (fst (erase_oldest signalsToRemove 0 ys)) = length (storedSignals st) - min 200 ?N"
    using length_after_cleanup [OF assms(2)] by (simp add: storedSignals_cleanup)
  then have f': "\<not> length (storedSignals st) - min 200 ?N < 1000"
    using full by (simp add: MAX_SIGNALS_def)
  have b1: "length (storedSignals st) \<le> 1000"
    using assms(1) by (simp only: MAX_SIGNALS_def)
  have "length (storedSignals st) = 1000 \<and> ?N = 0"
    using f' b1 by arith
  then show a: "length (storedSignals st) = MAX_SIGNALS"
    and b: "filter (\<lambda>s. \<not> isFavorite s) (storedSignals st) = []"
    by (simp_all add: MAX_SIGNALS_def)
  have "(v, bits, proto) \<notin> triple ` set (storedSignals st)"
    using nd by (simp add: isDuplicate_in_iff triple_newSignal)
  with a b assms(2) v show "storedSignals (after (handleReceivedSignal v bits proto m1 m2 ys st)) = ys"
    by (rule storage_full_among_favorites(2))
qed

section \<open>The claims\<close>

text \<open>
  C1. A candidate whose triple (value, bitLength, protocol) is already stored is answered
  with \<open>Duplicate\<close> and nothing is stored: the duplicate branch returns the state as it
  was, \<open>handleReceivedSignal\<close> leaves the archive and the store untouched, and in every
  state of the device no two stored signals share a triple.
\<close>

theorem duplicate_insert_rejected:
  "(triple s \<in> triple ` set (storedSignals st) \<longrightarrow> store_if_new s ys st = (Duplicate, st)) \<and>
   (v \<noteq> 0 \<and> (v, bits, proto) \<in> triple ` set (storedSignals st) \<longrightarrow>
      outcome (handleReceivedSignal v bits proto m1 m2 ys st) = Some Duplicate \<and>
      storedSignals (after (handleReceivedSignal v bits proto m1 m2 ys st)) = storedSignals st \<and>
      preferences (after (handleReceivedSignal v bits proto m1 m2 ys st)) = preferences st) \<and>
   (reachable st \<longrightarrow> distinct (map triple (storedSignals st)))"
proof (intro conjI impI)
  assume "triple s \<in> triple ` set (storedSignals st)"
  then show "store_if_new s ys st = (Duplicate, st)" by (rule duplicate_unchanged)
next
  assume a: "v \<noteq> 0 \<and> (v, bits, proto) \<in> triple ` set (storedSignals st)"
  let ?st0 = "st\<lparr>signalCount := signalCount st + 1\<rparr>"
  have "triple (newSignal v bits proto m1 st) \<in> triple ` set (storedSignals ?st0)"
    using a by (simp add: triple_newSignal)
  then have d: "store_if_new (newSignal v bits proto m1 st) ys ?st0 = (Duplicate, ?st0)"
    by (rule duplicate_unchanged)
  show "outcome (handleReceivedSignal v bits proto m1 m2 ys st) = Some Duplicate"
    using a by (simp add: outcome_handle d)
  show "storedSignals (after (handleReceivedSignal v bits proto m1 m2 ys st)) = storedSignals st"
    using a by (simp add: after_handle d)
  show "preferences (after (handleReceivedSignal v bits proto m1 m2 ys st)) = preferences st"
    using a by (simp add: after_handle d)
next
  assume "reachable st"
  then have "archive_inv st" by (rule archive_inv_reachable)
  then show "distinct (map triple (storedSignals st))"
    by (simp add: archive_inv_def archive_ok_def)
qed

theorem duplicate_insert_rejected_witness:
  "(triple (sig_no 0 True) \<in> triple ` set (storedSignals (captured (Suc 0))) \<and>
    store_if_new (sig_no 0 True) [] (captured (Suc 0)) = (Duplicate, captured (Suc 0))) \<and>
   ((1 :: uint32) \<noteq> 0 \<and> (1, 24, 1) \<in> triple ` set (storedSignals (captured (Suc 0))) \<and>
    outcome (handleReceivedSignal 1 24 1 5000 5820 [] (captured (Suc 0))) = Some Duplicate \<and>
    storedSignals (after (handleReceivedSignal 1 24 1 5000 5820 [] (captured (Suc 0)))) =
      storedSignals (captured (Suc 0))) \<and>
   (reachable (captured (Suc 0)) \<and> distinct (map triple (storedSignals (captured (Suc 0)))))"
proof -
  have t: "triple (sig_no 0 f) = (1, 24, 1)" for f
    by (simp add: triple_def sig_no_def)
  have r: "reachable (captured (Suc 0))"
    by (rule reachable_captured) simp
  show ?thesis
    using duplicate_insert_rejected [of "sig_no 0 True" "captured (Suc 0)" "[]" 1 24 1 5000 5820] r
    by (simp add: captured_one t)
qed

text \<open>
  C2 (as amended). On an archive of exactly 950 signals, none a favorite, the capture of a
  new code runs the cleanup. Whatever arrangement \<open>ys\<close> the sort leaves, the cleanup erases
  its first 200 signals, none of them younger than any signal kept, and leaves the other
  750 in that order; the new signal is appended behind them at id 750, the outcome is
  \<open>Stored 751\<close> and the final size is 751. The sizes 751 and 752 of the scenario do not
  occur.
\<close>

theorem insert_at_threshold:
  assumes "length (storedSignals st) = 950"
    and "filter isFavorite (storedSignals st) = []"
    and "sort_outcome (storedSignals st) ys"
    and "v \<noteq> 0" and "(v, bits, proto) \<notin> triple ` set (storedSignals st)"
  shows "length (storedSignals (performAutoCleanup ys st)) = 750 \<and>
         outcome (handleReceivedSignal v bits proto m1 m2 ys st) = Some (Stored 751) \<and>
         length (storedSignals (after (handleReceivedSignal v bits proto m1 m2 ys st))) = 751 \<and>
         storedSignals (performAutoCleanup ys st) = drop 200 ys \<and>
         mset (take 200 ys) + mset (drop 200 ys) = mset (storedSignals st) \<and>
         length (take 200 ys) = 200 \<and>
         (\<forall>r \<in> set (take 200 ys). \<forall>s \<in> set (drop 200 ys). timestamp r \<le> timestamp s) \<and>
         storedSignals (after (handleReceivedSignal v bits proto m1 m2 ys st)) =
           drop 200 ys @ [newSignal v bits proto m1 st] \<and>
         storedSignals (after (handleReceivedSignal v bits proto m1 m2 ys st)) ! 750 =
           newSignal v bits proto m1 st"
proof -
  have "\<forall>s \<in> set (storedSignals st). \<not> isFavorite s"
    using assms(2) by (simp add: filter_empty_conv)
  with assms(1) have sizes:
    "length (storedSignals (performAutoCleanup ys st)) = 750 \<and>
     outcome (handleReceivedSignal v bits proto m1 m2 ys st) = Some (Stored 751) \<and>
     length (storedSignals (after (handleReceivedSignal v bits proto m1 m2 ys st))) = 751"
    using assms(3,4,5) by (rule store_at_threshold)
  note c = cleanup_without_favorites [OF assms(2,3)]
  have a: "storedSignals (after (handleReceivedSignal v bits proto m1 m2 ys st)) =
           drop 200 ys @ [newSignal v bits proto m1 st]"
    using assms by (rule append_at_threshold)
  have "length ys = 950"
    using assms(1,3) by (auto simp: sort_outcome_def dest: mset_eq_length)
  then have t: "length (take 200 ys) = 200" and d: "length (drop 200 ys) = 750"
    by simp_all
  have n: "storedSignals (after (handleReceivedSignal v bits proto m1 m2 ys st)) ! 750 =
           newSignal v bits proto m1 st"
    using d by (simp add: a nth_append)
  show ?thesis
    by (intro conjI) (rule sizes [THEN conjunct1] sizes [THEN conjunct2, THEN conjunct1]
      sizes [THEN conjunct2, THEN conjunct2] c t a n)+
qed

theorem insert_at_threshold_witness:
  "length (storedSignals (captured 950)) = 950 \<and>
   filter isFavorite (storedSignals (captured 950)) = [] \<and>
   sort_outcome (storedSignals (captured 950)) (storedSignals (captured 950)) \<and>
   (951 :: uint32) \<noteq> 0 \<and> (951, 24, 1) \<notin> triple ` set (storedSignals (captured 950)) \<and>
   length (storedSignals (performAutoCleanup (storedSignals (captured 950)) (captured 950))) = 750 \<and>
   outcome (handleReceivedSignal 951 24 1 951000 951820 (storedSignals (captured 950)) (captured 950))
     = Some (Stored 751) \<and>
   length (storedSignals (after
     (handleReceivedSignal 951 24 1 951000 951820 (storedSignals (captured 950)) (captured 950)))) = 751 \<and>
   storedSignals (performAutoCleanup (storedSignals (captured 950)) (captured 950)) =
     map (\<lambda>k. sig_no k False) [200..<950] \<and>
   storedSignals (after
     (handleReceivedSignal 951 24 1 951000 951820 (storedSignals (captured 950)) (captured 950))) =
     map (\<lambda>k. sig_no k False) [200..<950] @ [sig_no 950 False]"
proof -
  have len: "length (storedSignals (captured 950)) = 950"
    by (simp add: captured_950)
  have nf: "filter isFavorite (storedSignals (captured 950)) = []"
    using nonfav_captured_950 by (simp add: filter_empty_conv)
  have v: "(951 :: uint32) \<noteq> 0" by simp
  have d: "drop 200 (storedSignals (captured 950)) = map (\<lambda>k. sig_no k False) [200..<950]"
    by (simp add: captured_950 drop_map)
  have "signalCount (captured 950) = word_of_nat 950"
    using captured_state [of 950] by simp
  then have "newSignal (word_of_nat (Suc 950)) 24 1 (word_of_nat (1000 * Suc 950)) (captured 950) =
             sig_no 950 False"
    by (rule newSignal_sig_no)
  then have new: "newSignal 951 24 1 951000 (captured 950) = sig_no 950 False"
    by simp
  note T = insert_at_threshold [OF len nf sort_outcome_captured_950 v new_code_951, of 951000 951820]
  have t1: "length (storedSignals (performAutoCleanup (storedSignals (captured 950)) (captured 950))) = 750"
    using T by (rule conjunct1)
  have t2: "outcome (handleReceivedSignal 951 24 1 951000 951820 (storedSignals (captured 950)) (captured 950))
     = Some (Stored 751)"
    using T by (elim conjE)
  have t3: "length (storedSignals (after
     (handleReceivedSignal 951 24 1 951000 951820 (storedSignals (captured 950)) (captured 950)))) = 751"
    using T by (elim conjE)
  have t4: "storedSignals (performAutoCleanup (storedSignals (captured 950)) (captured 950)) =
     map (\<lambda>k. sig_no k False) [200..<950]"
    unfolding d [symmetric] using T by (elim conjE)
  have t5: "storedSignals (after
     (handleReceivedSignal 951 24 1 951000 951820 (storedSignals (captured 950)) (captured 950))) =
     map (\<lambda>k. sig_no k False) [200..<950] @ [sig_no 950 False]"
    unfolding d [symmetric] new [symmetric] using T by (elim conjE)
  show ?thesis
    by (intro conjI) (rule len nf sort_outcome_captured_950 v new_code_951 t1 t2 t3 t4 t5)+
qed

theorem insert_at_threshold_counterexample:
  "length (storedSignals (performAutoCleanup (storedSignals (captured 950)) (captured 950))) \<noteq> 751 \<and>
   outcome (handleReceivedSignal 951 24 1 951000 951820 (storedSignals (captured 950)) (captured 950))
     \<noteq> Some (Stored 752) \<and>
   length (storedSignals (after
     (handleReceivedSignal 951 24 1 951000 951820 (storedSignals (captured 950)) (captured 950)))) \<noteq> 752"
proof -
  have len: "length (storedSignals (captured 950)) = 950"
    by (simp add: captured_950)
  have "length (storedSignals (performAutoCleanup (storedSignals (captured 950)) (captured 950))) = 750 \<and>
      outcome (handleReceivedSignal 951 24 1 951000 951820 (storedSignals (captured 950)) (captured 950))
        = Some (Stored 751) \<and>
      length (storedSignals (after
        (handleReceivedSignal 951 24 1 951000 951820 (storedSignals (captured 950)) (captured 950)))) = 751"
    by (rule store_at_threshold
          [OF len nonfav_captured_950 sort_outcome_captured_950 _ new_code_951]) simp
  then show ?thesis by simp
qed

text \<open>
  C3 (as amended). The quota of a cleanup is the constant 200 on every call: on an archive
  with \<open>N\<close> non-favorites the first of two consecutive runs removes \<open>min 200 N\<close> signals and
  the second \<open>min 200 (N - 200)\<close>; the second run removes nothing exactly when \<open>N \<le> 200\<close>,
  that is when the first run left no non-favorite.
\<close>

theorem cleanup_twice_counts:
  fixes st :: state and ys zs :: "RFSignal list"
  defines "N \<equiv> length (filter (\<lambda>s. \<not> isFavorite s) (storedSignals st))"
  assumes "sort_outcome (storedSignals st) ys"
    and "sort_outcome (storedSignals (performAutoCleanup ys st)) zs"
  shows "fst (api_cleanup ys st) = min 200 N \<and>
         fst (api_cleanup zs (snd (api_cleanup ys st))) = min 200 (N - 200) \<and>
         (fst (api_cleanup zs (snd (api_cleanup ys st))) = 0 \<longleftrightarrow> N \<le> 200)"
proof -
  have s: "snd (api_cleanup ys st) = performAutoCleanup ys st"
    by (simp add: api_cleanup_def Let_def)
  have c1: "fst (api_cleanup ys st) = min 200 N"
    unfolding N_def using assms(2) by (rule api_cleanup_count)
  have c2: "fst (api_cleanup zs (snd (api_cleanup ys st))) = min 200 (N - 200)"
    unfolding s N_def using api_cleanup_count [OF assms(3)] nonfav_after_cleanup [OF assms(2)]
    by simp
  have c3: "fst (api_cleanup zs (snd (api_cleanup ys st))) = 0 \<longleftrightarrow> N \<le> 200"
    unfolding c2 by arith
  show ?thesis by (intro conjI) (rule c1 c2 c3)+
qed

theorem cleanup_twice_counts_witness:
  "sort_outcome (storedSignals (captured 950)) (storedSignals (captured 950)) \<and>
   sort_outcome (storedSignals (performAutoCleanup (storedSignals (captured 950)) (captured 950)))
     (drop 200 (storedSignals (captured 950))) \<and>
   fst (api_cleanup (storedSignals (captured 950)) (captured 950)) = 200 \<and>
   fst (api_cleanup (drop 200 (storedSignals (captured 950)))
          (snd (api_cleanup (storedSignals (captured 950)) (captured 950)))) = 200"
proof -
  have z: "sort_outcome (storedSignals (performAutoCleanup (storedSignals (captured 950)) (captured 950)))
     (drop 200 (storedSignals (captured 950)))"
    unfolding cleaned_captured_950 by (rule sort_outcome_cleaned_950)
  have N: "length (filter (\<lambda>s. \<not> isFavorite s) (storedSignals (captured 950))) = 950"
    by (simp only: filter_nonfav_captured_950) (simp add: captured_950)
  show ?thesis
    using cleanup_twice_counts [OF sort_outcome_captured_950 z] sort_outcome_captured_950 z
    by (simp add: N)
qed

theorem cleanup_twice_counterexample:
  "fst (api_cleanup (storedSignals (captured 950)) (captured 950)) = 200 \<and>
   sort_outcome (storedSignals (snd (api_cleanup (storedSignals (captured 950)) (captured 950))))
     (drop 200 (storedSignals (captured 950))) \<and>
   fst (api_cleanup (drop 200 (storedSignals (captured 950)))
          (snd (api_cleanup (storedSignals (captured 950)) (captured 950)))) \<noteq> 0"
proof -
  let ?A = "storedSignals (captured 950)"
  have s: "snd (api_cleanup ?A (captured 950)) = performAutoCleanup ?A (captured 950)"
    by (simp add: api_cleanup_def Let_def)
  have N: "length (filter (\<lambda>s. \<not> isFavorite s) ?A) = 950"
    by (simp only: filter_nonfav_captured_950) (simp add: captured_950)
  have c1: "fst (api_cleanup ?A (captured 950)) = 200"
    using api_cleanup_count [OF sort_outcome_captured_950] by (simp add: N)
  have c2: "sort_outcome (storedSignals (snd (api_cleanup ?A (captured 950)))) (drop 200 ?A)"
    unfolding s cleaned_captured_950 by (rule sort_outcome_cleaned_950)
  have "fst (api_cleanup (drop 200 ?A) (performAutoCleanup ?A (captured 950))) =
        min 200 (length (filter (\<lambda>s. \<not> isFavorite s) (storedSignals (performAutoCleanup ?A (captured 950)))))"
    by (rule api_cleanup_count) (simp only: cleaned_captured_950 sort_outcome_cleaned_950)
  also have "\<dots> = 200"
    by (simp add: nonfav_after_cleanup [OF sort_outcome_captured_950] N)
  finally have c3: "fst (api_cleanup (drop 200 ?A) (snd (api_cleanup ?A (captured 950)))) \<noteq> 0"
    by (simp add: s)
  show ?thesis by (intro conjI) (rule c1 c2 c3)+
qed

text \<open>
  C4. On an archive with \<open>N\<close> non-favorites of distinct timestamps, whatever arrangement the
  sort leaves, the cleanup removes 200 signals (all \<open>N\<close> when \<open>N < 200\<close>); every removed
  signal is a non-favorite older than every non-favorite that is kept; the favorites
  before and after are the same.
\<close>

theorem cleanup_removes_oldest_nonfavorites:
  fixes st :: state and ys :: "RFSignal list"
  defines "xs \<equiv> storedSignals st"
    and "kept \<equiv> storedSignals (performAutoCleanup ys st)"
    and "N \<equiv> length (filter (\<lambda>s. \<not> isFavorite s) (storedSignals st))"
  assumes "sort_outcome xs ys"
    and "distinct (map timestamp (filter (\<lambda>s. \<not> isFavorite s) xs))"
  shows "signalsToRemove = 200 \<and>
         mset kept \<subseteq># mset xs \<and>
         size (mset xs - mset kept) = (if N < 200 then N else 200) \<and>
         cleanup_removedCount ys = (if N < 200 then N else 200) \<and>
         fst (api_cleanup ys st) = (if N < 200 then N else 200) \<and>
         (\<forall>r \<in># mset xs - mset kept.
            \<not> isFavorite r \<and> (\<forall>s \<in> set kept. \<not> isFavorite s \<longrightarrow> timestamp r < timestamp s)) \<and>
         filter_mset isFavorite (mset kept) = filter_mset isFavorite (mset xs)"
proof -
  let ?nf = "filter (\<lambda>s. \<not> isFavorite s) ys"
  have q: "signalsToRemove = 200"
    by (simp add: signalsToRemove_def MAX_SIGNALS_def)
  have m: "mset ys = mset xs" and srt: "sorted_wrt (\<lambda>a b. \<not> cleanup_less b a) ys"
    using assms(4) by (simp_all add: sort_outcome_def)
  have kept: "kept = fst (erase_oldest 200 0 ys)"
    by (simp add: kept_def storedSignals_cleanup q)
  have split: "mset xs = mset (take 200 ?nf) + mset kept"
    using mset_erase_oldest_sorted [OF srt, of 200] by (simp only: m kept)
  then have removed: "mset xs - mset kept = mset (take 200 ?nf)"
    by simp
  have len: "length ?nf = N"
    unfolding N_def xs_def [symmetric] using m by (rule mset_nonfav_arranged)
  have d: "distinct (map timestamp ?nf)"
  proof -
    have "mset (map timestamp ?nf) = mset (map timestamp (filter (\<lambda>s. \<not> isFavorite s) xs))"
      using m by simp
    then have "distinct (map timestamp ?nf) \<longleftrightarrow>
               distinct (map timestamp (filter (\<lambda>s. \<not> isFavorite s) xs))"
      by (rule mset_eq_imp_distinct_iff)
    with assms(5) show ?thesis by simp
  qed
  have c1: "mset kept \<subseteq># mset xs"
    by (simp add: split)
  have c2: "size (mset xs - mset kept) = (if N < 200 then N else 200)"
    by (simp add: removed len min_def)
  have c3: "cleanup_removedCount ys = (if N < 200 then N else 200)"
    by (simp add: cleanup_removedCount_def q erase_oldest_count len min_def)
  have "size (mset xs) = size (mset (take 200 ?nf) + mset kept)"
    by (simp only: split)
  then have "length xs = length (take 200 ?nf) + length kept"
    by (simp only: size_union size_mset)
  then have c4: "fst (api_cleanup ys st) = (if N < 200 then N else 200)"
    by (simp add: api_cleanup_def Let_def kept_def [symmetric] xs_def [symmetric] len min_def)
  have c5: "\<not> isFavorite r \<and> (\<forall>s \<in> set kept. \<not> isFavorite s \<longrightarrow> timestamp r < timestamp s)"
    if "r \<in># mset xs - mset kept" for r
  proof -
    from that have r: "r \<in> set (take 200 ?nf)" by (simp add: removed)
    then have "r \<in> set ?nf" by (rule in_set_takeD)
    then have "\<not> isFavorite r" by simp
    moreover have "timestamp r < timestamp s" if "s \<in> set kept" "\<not> isFavorite s" for s
      using srt d r that unfolding kept by (rule removed_older_than_kept)
    ultimately show ?thesis by simp
  qed
  then have c5': "\<forall>r \<in># mset xs - mset kept.
            \<not> isFavorite r \<and> (\<forall>s \<in> set kept. \<not> isFavorite s \<longrightarrow> timestamp r < timestamp s)"
    by (rule ballI)
  have "filter isFavorite kept = filter isFavorite ys"
    by (simp add: kept erase_oldest_fav)
  then have "mset (filter isFavorite kept) = mset (filter isFavorite ys)" by simp
  then have c6: "filter_mset isFavorite (mset kept) = filter_mset isFavorite (mset xs)"
    by (simp add: m)
  show ?thesis
    by (intro conjI) (rule q c1 c2 c3 c4 c5' c6)+
qed

theorem cleanup_removes_oldest_nonfavorites_witness:
  "sort_outcome (storedSignals one_favorite) one_favorite_arranged \<and>
   distinct (map timestamp (filter (\<lambda>s. \<not> isFavorite s) (storedSignals one_favorite))) \<and>
   length (filter (\<lambda>s. \<not> isFavorite s) (storedSignals one_favorite)) = 949 \<and>
   size (mset (storedSignals one_favorite) -
         mset (storedSignals (performAutoCleanup one_favorite_arranged one_favorite))) = 200 \<and>
   fst (api_cleanup one_favorite_arranged one_favorite) = 200 \<and>
   filter_mset isFavorite (mset (storedSignals (performAutoCleanup one_favorite_arranged one_favorite))) =
     filter_mset isFavorite (mset (storedSignals one_favorite))"
proof -
  have d: "distinct (map timestamp (filter (\<lambda>s. \<not> isFavorite s) (storedSignals one_favorite)))"
    unfolding nonfav_one_favorite by (rule distinct_timestamps_sig_no) simp
  have n: "length (filter (\<lambda>s. \<not> isFavorite s) (storedSignals one_favorite)) = 949"
    by (simp add: nonfav_one_favorite)
  show ?thesis
    using cleanup_removes_oldest_nonfavorites [OF sort_outcome_one_favorite d]
      sort_outcome_one_favorite d n
    by simp
qed

text \<open>
  C5 (as amended). The feedback of \<open>handleReceivedSignal\<close> does not depend on the outcome:
  every non-zero reading, whether it is stored, a duplicate or refused for lack of room,
  plays the receive sound when the buzzer flag is set and flashes the LED when the LED flag
  is set; a zero reading gives no feedback.
\<close>

theorem feedback_on_every_reading:
  "effects (handleReceivedSignal v bits proto m1 m2 ys st) =
     (if v \<noteq> 0
      then (if buzzerEnabled st then [ReceiveSound] else []) @
           (if ledEnabled st then [FlashLED 100 3] else [])
      else [])"
  by (rule effects_handle)

theorem feedback_on_every_reading_counterexample:
  "outcome (handleReceivedSignal 1 24 1 5000 5820 [] (captured (Suc 0))) = Some Duplicate \<and>
   effects (handleReceivedSignal 1 24 1 5000 5820 [] (captured (Suc 0))) = [ReceiveSound, FlashLED 100 3]"
proof -
  have f: "buzzerEnabled (captured (Suc 0))" "ledEnabled (captured (Suc 0))"
    using captured_state [of "Suc 0"] by simp_all
  have "triple (newSignal 1 24 1 5000 (captured (Suc 0))) \<in>
        triple ` set (storedSignals ((captured (Suc 0))\<lparr>signalCount := signalCount (captured (Suc 0)) + 1\<rparr>))"
    by (simp add: triple_newSignal captured_one triple_sig_no)
  then have "store_if_new (newSignal 1 24 1 5000 (captured (Suc 0))) []
               ((captured (Suc 0))\<lparr>signalCount := signalCount (captured (Suc 0)) + 1\<rparr>) =
             (Duplicate, (captured (Suc 0))\<lparr>signalCount := signalCount (captured (Suc 0)) + 1\<rparr>)"
    by (rule duplicate_unchanged)
  then show ?thesis
    by (simp add: outcome_handle effects_handle f)
qed

text \<open>
  C6. The handler of \<open>/api/cleanup/old\<close> one minute after the start, with the default of
  seven days, on an archive that holds one non-favorite captured one second after the
  start: the subtraction wraps, the cutoff is 3690227296, and the signal, 59 seconds old,
  is removed.
\<close>

theorem purge_before_seven_days_uptime:
  "storedSignals (captured (Suc 0)) = [sig_no 0 False] \<and>
   timestamp (sig_no 0 False) = 1000 \<and> isFavorite (sig_no 0 False) = False \<and>
   (60000 :: uint32) - timestamp (sig_no 0 False) = 59000 \<and>
   (59000 :: uint32) < 7 * 24 * 60 * 60 * 1000 \<and>
   cutoffTime 60000 7 = 3690227296 \<and>
   fst (api_cleanup_old None 60000 (captured (Suc 0))) = 1 \<and>
   storedSignals (snd (api_cleanup_old None 60000 (captured (Suc 0)))) = []"
proof -
  have c: "cutoffTime 60000 7 = 3690227296"
    by (simp add: cutoffTime_def)
  have t: "timestamp (sig_no 0 False) = 1000" "isFavorite (sig_no 0 False) = False"
    by (simp_all add: sig_no_def)
  have "erase_old (cutoffTime 60000 7) [sig_no 0 False] = []"
    by (simp add: c t)
  then show ?thesis
    using c t by (simp add: api_cleanup_old_def captured_one)
qed

text \<open>
  C7 (as amended). In every state of the device the archive holds at most \<open>MAX_SIGNALS\<close>
  signals. When \<open>handleReceivedSignal\<close> answers \<open>StorageFull\<close> on an archive within that
  bound, the archive afterwards is the arrangement left by the sort of the cleanup: the
  same signals, \<open>MAX_SIGNALS\<close> of them, in an order that may differ. A new code met by an
  archive that still holds \<open>MAX_SIGNALS\<close> signals after the cleanup is answered with
  \<open>StorageFull\<close>.
\<close>

theorem archive_bounded:
  "(reachable st \<longrightarrow> length (storedSignals st) \<le> MAX_SIGNALS) \<and>
   (length (storedSignals st) \<le> MAX_SIGNALS \<and> sort_outcome (storedSignals st) ys \<and>
    outcome (handleReceivedSignal v bits proto m1 m2 ys st) = Some StorageFull \<longrightarrow>
      storedSignals (after (handleReceivedSignal v bits proto m1 m2 ys st)) = ys \<and>
      mset (storedSignals (after (handleReceivedSignal v bits proto m1 m2 ys st))) = mset (storedSignals st) \<and>
      length (storedSignals (after (handleReceivedSignal v bits proto m1 m2 ys st))) = MAX_SIGNALS) \<and>
   (v \<noteq> 0 \<and> (v, bits, proto) \<notin> triple ` set (storedSignals st) \<and>
    AUTO_CLEANUP_THRESHOLD \<le> length (storedSignals st) \<and>
    MAX_SIGNALS \<le> length (storedSignals (performAutoCleanup ys st)) \<longrightarrow>
      outcome (handleReceivedSignal v bits proto m1 m2 ys st) = Some StorageFull)"
proof (intro conjI impI)
  assume "reachable st"
  then have "archive_inv st" by (rule archive_inv_reachable)
  then show "length (storedSignals st) \<le> MAX_SIGNALS"
    by (simp add: archive_inv_def archive_ok_def)
next
  assume a: "length (storedSignals st) \<le> MAX_SIGNALS \<and> sort_outcome (storedSignals st) ys \<and>
    outcome (handleReceivedSignal v bits proto m1 m2 ys st) = Some StorageFull"
  then have b: "length (storedSignals st) \<le> MAX_SIGNALS" and so: "sort_outcome (storedSignals st) ys"
    and o: "outcome (handleReceivedSignal v bits proto m1 m2 ys st) = Some StorageFull"
    by simp_all
  note s = storage_full_only_among_favorites [OF b so o]
  show "storedSignals (after (handleReceivedSignal v bits proto m1 m2 ys st)) = ys"
    by (rule s(3))
  show "mset (storedSignals (after (handleReceivedSignal v bits proto m1 m2 ys st))) = mset (storedSignals st)"
    using so by (simp add: s(3) sort_outcome_def)
  have "length ys = length (storedSignals st)"
    using so by (auto simp: sort_outcome_def dest: mset_eq_length)
  then show "length (storedSignals (after (handleReceivedSignal v bits proto m1 m2 ys st))) = MAX_SIGNALS"
    by (simp add: s(3) s(1))
next
  assume a: "v \<noteq> 0 \<and> (v, bits, proto) \<notin> triple ` set (storedSignals st) \<and>
    AUTO_CLEANUP_THRESHOLD \<le> length (storedSignals st) \<and>
    MAX_SIGNALS \<le> length (storedSignals (performAutoCleanup ys st))"
  let ?st0 = "st\<lparr>signalCount := signalCount st + 1\<rparr>"
  have nd: "\<not> isDuplicate_in (storedSignals ?st0) (newSignal v bits proto m1 st)"
    using a by (simp add: isDuplicate_in_iff triple_newSignal)
  show "outcome (handleReceivedSignal v bits proto m1 m2 ys st) = Some StorageFull"
    using a nd by (simp add: outcome_handle outcome_store_if_new storedSignals_cleanup)
qed

theorem archive_bounded_witness:
  "(reachable full_state \<and> length (storedSignals full_state) \<le> MAX_SIGNALS) \<and>
   (sort_outcome (storedSignals full_state) full_arranged \<and>
    outcome (handleReceivedSignal 7777 24 1 2000 2820 full_arranged full_state) = Some StorageFull \<and>
    mset (storedSignals (after (handleReceivedSignal 7777 24 1 2000 2820 full_arranged full_state))) =
      mset (storedSignals full_state) \<and>
    length (storedSignals (after (handleReceivedSignal 7777 24 1 2000 2820 full_arranged full_state))) =
      MAX_SIGNALS) \<and>
   ((7777 :: uint32) \<noteq> 0 \<and> (7777, 24, 1) \<notin> triple ` set (storedSignals full_state) \<and>
    AUTO_CLEANUP_THRESHOLD \<le> length (storedSignals full_state) \<and>
    MAX_SIGNALS \<le> length (storedSignals (performAutoCleanup full_arranged full_state)))"
proof -
  have len: "length (storedSignals full_state) = MAX_SIGNALS"
    by (simp add: full_state_counts MAX_SIGNALS_def)
  have v: "(7777 :: uint32) \<noteq> 0" by simp
  have "\<forall>s \<in> set full_arranged. isFavorite s"
    by (simp add: full_arranged_def late_sig_fields sig_no_def)
  then have "fst (erase_oldest signalsToRemove 0 full_arranged) = full_arranged"
    by (rule erase_oldest_all_fav)
  then have c: "length (storedSignals (performAutoCleanup full_arranged full_state)) = 1000"
    by (simp add: storedSignals_cleanup full_arranged_def)
  have t: "AUTO_CLEANUP_THRESHOLD \<le> length (storedSignals full_state)"
    by (simp add: full_state_counts AUTO_CLEANUP_THRESHOLD_def)
  have c': "MAX_SIGNALS \<le> length (storedSignals (performAutoCleanup full_arranged full_state))"
    by (simp add: c MAX_SIGNALS_def)
  note T = archive_bounded [of full_state full_arranged 7777 24 1 2000 2820]
  have o: "outcome (handleReceivedSignal 7777 24 1 2000 2820 full_arranged full_state) = Some StorageFull"
    using T [THEN conjunct2, THEN conjunct2] v new_code_7777 t c' by simp
  have b: "length (storedSignals full_state) \<le> MAX_SIGNALS"
    using T [THEN conjunct1] full_state_archive(2) by simp
  have k: "mset (storedSignals (after (handleReceivedSignal 7777 24 1 2000 2820 full_arranged full_state))) =
      mset (storedSignals full_state) \<and>
    length (storedSignals (after (handleReceivedSignal 7777 24 1 2000 2820 full_arranged full_state))) =
      MAX_SIGNALS"
    using T [THEN conjunct2, THEN conjunct1, THEN mp, OF conjI [OF b conjI [OF sort_outcome_full o]]]
    by (rule conjunct2)
  show ?thesis
    using full_state_archive(2) b sort_outcome_full o k v new_code_7777 t c' by simp
qed

theorem archive_bounded_counterexample:
  "reachable full_state \<and>
   \<not> sort_outcome (storedSignals full_state) (storedSignals full_state) \<and>
   sort_outcome (storedSignals full_state) full_arranged \<and>
   outcome (handleReceivedSignal 7777 24 1 2000 2820 full_arranged full_state) = Some StorageFull \<and>
   storedSignals (after (handleReceivedSignal 7777 24 1 2000 2820 full_arranged full_state)) \<noteq>
     storedSignals full_state"
proof -
  have len: "length (storedSignals full_state) = MAX_SIGNALS"
    by (simp add: full_state_counts MAX_SIGNALS_def)
  have v: "(7777 :: uint32) \<noteq> 0" by simp
  note s = storage_full_among_favorites
    [OF len full_state_counts(2) sort_outcome_full v new_code_7777, of 2000 2820]
  show ?thesis
    using s(1) s(2) full_state_archive(2) full_state_not_sorted sort_outcome_full full_arranged_differs
    by simp
qed

text \<open>
  C8. In every state of the device, writing the snapshot and reading it back into an empty
  archive gives the same list of signals, fields and order included (first conjunct). A
  restart whose file system mounts, the only one \<open>setup_device\<close> describes, reads that list
  back, and the store already holds the snapshot before the extra save (second and third
  conjunct).
\<close>

theorem snapshot_round_trip:
  assumes "reachable st"
  shows "storedSignals (loadStoredSignals ((saveStoredSignals st)\<lparr>storedSignals := []\<rparr>)) = storedSignals st \<and>
         storedSignals (setup_device (preferences (saveStoredSignals st))) = storedSignals st \<and>
         storedSignals (setup_device (preferences st)) = storedSignals st"
proof -
  have inv: "archive_inv st" using assms by (rule archive_inv_reachable)
  then have ok: "archive_ok (storedSignals st)" by (simp add: archive_inv_def)
  then have inv': "archive_inv (saveStoredSignals st)" by (rule archive_inv_save)
  have "storedSignals (loadStoredSignals ((saveStoredSignals st)\<lparr>storedSignals := [],
          preferences := preferences (saveStoredSignals st)\<rparr>)) = storedSignals (saveStoredSignals st)"
    using inv' by (intro load_in_sync) (simp_all add: archive_inv_def)
  then have c1: "storedSignals (loadStoredSignals ((saveStoredSignals st)\<lparr>storedSignals := []\<rparr>)) = storedSignals st"
    by simp
  have c2: "storedSignals (setup_device (preferences (saveStoredSignals st))) = storedSignals st"
    using storedSignals_setup_device [OF inv'] by simp
  have c3: "storedSignals (setup_device (preferences st)) = storedSignals st"
    using inv by (rule storedSignals_setup_device)
  show ?thesis by (intro conjI) (rule c1 c2 c3)+
qed

theorem snapshot_round_trip_witness:
  "reachable one_favorite \<and>
   storedSignals (setup_device (preferences (saveStoredSignals one_favorite))) =
     sig_no 0 True # map (\<lambda>k. sig_no k False) [1..<950] \<and>
   storedSignals (setup_device (preferences one_favorite)) = storedSignals one_favorite"
  using snapshot_round_trip [OF reachable_one_favorite] reachable_one_favorite
  by (simp add: one_favorite_archive)

text \<open>
  C9 (as amended). \<open>lastSignalTime\<close> is set to the second reading of \<open>millis()\<close> by every
  non-zero reading, whatever the outcome, and is left as it was by a zero reading, which
  is the only reading without an outcome.
\<close>

theorem last_signal_time_on_every_reading:
  "lastSignalTime (after (handleReceivedSignal v bits proto m1 m2 ys st)) =
     (if v \<noteq> 0 then m2 else lastSignalTime st) \<and>
   (outcome (handleReceivedSignal v bits proto m1 m2 ys st) = None \<longleftrightarrow> v = 0)"
  by (simp add: handleReceivedSignal_def split_beta)

theorem last_signal_time_counterexample:
  "outcome (handleReceivedSignal 7777 24 1 2000 2820 full_arranged full_state) = Some StorageFull \<and>
   lastSignalTime full_state = 1320 \<and>
   lastSignalTime (after (handleReceivedSignal 7777 24 1 2000 2820 full_arranged full_state)) = 2820"
proof -
  have len: "length (storedSignals full_state) = MAX_SIGNALS"
    by (simp add: full_state_counts MAX_SIGNALS_def)
  have v: "(7777 :: uint32) \<noteq> 0" by simp
  note s = storage_full_among_favorites
    [OF len full_state_counts(2) sort_outcome_full v new_code_7777, of 2000 2820]
  show ?thesis
    using s(1) s(3) full_state_archive(3) by simp
qed

text \<open>
  C10. After a cleanup the archive is the kept non-favorites in ascending timestamp order
  followed by the favorites (themselves in ascending timestamp order), all favorites are
  still there, and this sequence is the one written to the store. In the example the
  favorite moves from id 0 to id 749.
\<close>

theorem cleanup_reorders_archive:
  fixes st :: state and ys :: "RFSignal list"
  defines "st' \<equiv> performAutoCleanup ys st"
  assumes "sort_outcome (storedSignals st) ys"
  shows "storedSignals st' =
           filter (\<lambda>s. \<not> isFavorite s) (storedSignals st') @ filter isFavorite (storedSignals st') \<and>
         sorted (map timestamp (filter (\<lambda>s. \<not> isFavorite s) (storedSignals st'))) \<and>
         sorted (map timestamp (filter isFavorite (storedSignals st'))) \<and>
         mset (filter isFavorite (storedSignals st')) = mset (filter isFavorite (storedSignals st)) \<and>
         map (get_signal (preferences st')) [0..<length (storedSignals st')] = storedSignals st'"
proof -
  have m: "mset ys = mset (storedSignals st)" and srt: "sorted_wrt (\<lambda>a b. \<not> cleanup_less b a) ys"
    using assms(2) by (simp_all add: sort_outcome_def)
  let ?nf = "filter (\<lambda>s. \<not> isFavorite s) ys"
  have kept: "storedSignals st' = drop signalsToRemove ?nf @ filter isFavorite ys"
    by (simp add: st'_def storedSignals_cleanup erase_oldest_sorted [OF srt])
  have nf: "filter (\<lambda>s. \<not> isFavorite s) (storedSignals st') = drop signalsToRemove ?nf"
    by (simp add: st'_def storedSignals_cleanup erase_oldest_nonfav)
  have fv: "filter isFavorite (storedSignals st') = filter isFavorite ys"
    by (simp add: st'_def storedSignals_cleanup erase_oldest_fav)
  have c1: "storedSignals st' =
           filter (\<lambda>s. \<not> isFavorite s) (storedSignals st') @ filter isFavorite (storedSignals st')"
    unfolding nf fv by (rule kept)
  have "sorted (drop signalsToRemove (map timestamp ?nf))"
    using sorted_nonfav_timestamps [OF srt] by (rule sorted_wrt_drop)
  then have c2: "sorted (map timestamp (filter (\<lambda>s. \<not> isFavorite s) (storedSignals st')))"
    by (simp only: nf drop_map)
  have c3: "sorted (map timestamp (filter isFavorite (storedSignals st')))"
    using sorted_fav_timestamps [OF srt] by (simp only: fv)
  have c4: "mset (filter isFavorite (storedSignals st')) = mset (filter isFavorite (storedSignals st))"
    using m by (simp add: fv)
  have "store_in_sync st'"
    unfolding st'_def performAutoCleanup_def by (rule store_in_sync_save)
  then have c5: "map (get_signal (preferences st')) [0..<length (storedSignals st')] = storedSignals st'"
    by (simp add: store_in_sync_def)
  show ?thesis
    by (intro conjI) (rule c1 c2 c3 c4 c5)+
qed

theorem cleanup_reorders_archive_witness:
  "sort_outcome (storedSignals one_favorite) one_favorite_arranged \<and>
   storedSignals (performAutoCleanup one_favorite_arranged one_favorite) =
     filter (\<lambda>s. \<not> isFavorite s) (storedSignals (performAutoCleanup one_favorite_arranged one_favorite)) @
     filter isFavorite (storedSignals (performAutoCleanup one_favorite_arranged one_favorite)) \<and>
   sorted (map timestamp
     (filter (\<lambda>s. \<not> isFavorite s) (storedSignals (performAutoCleanup one_favorite_arranged one_favorite)))) \<and>
   storedSignals one_favorite ! 0 = sig_no 0 True \<and>
   storedSignals (performAutoCleanup one_favorite_arranged one_favorite) ! 0 = sig_no 201 False \<and>
   storedSignals (performAutoCleanup one_favorite_arranged one_favorite) ! 749 = sig_no 0 True"
proof -
  have a: "storedSignals one_favorite ! 0 = sig_no 0 True"
    by (simp add: one_favorite_archive)
  have b: "storedSignals (performAutoCleanup one_favorite_arranged one_favorite) ! 0 = sig_no 201 False"
    by (simp add: cleaned_one_favorite nth_append)
  have c: "storedSignals (performAutoCleanup one_favorite_arranged one_favorite) ! 749 = sig_no 0 True"
    by (simp add: cleaned_one_favorite nth_append)
  show ?thesis
    using cleanup_reorders_archive [OF sort_outcome_one_favorite] sort_outcome_one_favorite a b c
    by simp
qed

end
